theory Spec2Isabelle
  imports
    Complex_Main
    "HOL-Library.Multiset"
    "HOL-Library.Sublist"
    "HOL-Library.Char_ord"
    "HOL-Library.List_Lexorder"
    "HOL-Library.Product_Lexorder"
    "HOL-Library.AList"
    "HOL-Library.Word"
begin

chapter \<open>The model\<close>

section \<open>Python strings\<close>

text \<open>
  A Python \<open>str\<close> is modelled as a \<open>string\<close>, one \<open>char\<close> per code point, which covers
  the code points 0 to 255 (ASCII and Latin-1). On these, \<open>str.lower\<close> maps \<open>A\<close> to \<open>Z\<close> and
  the Latin-1 capitals (192 to 222, without the multiplication sign 215) 32 places up and
  leaves every other code point alone.
\<close>

definition py_lower_char :: "char \<Rightarrow> char" where
  "py_lower_char c =
     (let n = (of_char c :: nat)
      in if (65 \<le> n \<and> n \<le> 90) \<or> (192 \<le> n \<and> n \<le> 222 \<and> n \<noteq> 215)
         then char_of (n + 32) else c)"

definition py_lower :: "string \<Rightarrow> string" where
  "py_lower s = map py_lower_char s"

text \<open>The character class \<open>[a-zA-Z0-9]\<close> of \<open>TOKEN_PATTERN\<close>.\<close>

definition is_alnum :: "char \<Rightarrow> bool" where
  "is_alnum c =
     (let n = (of_char c :: nat)
      in (97 \<le> n \<and> n \<le> 122) \<or> (65 \<le> n \<and> n \<le> 90) \<or> (48 \<le> n \<and> n \<le> 57))"

section \<open>Text processor (app/services/indexer/text\_processor.py)\<close>

text \<open>
  \<open>TOKEN_PATTERN.findall\<close>: the maximal runs of characters of the class, left to right.
  \<open>cur\<close> is the run being read.
\<close>

fun findall_tokens :: "string \<Rightarrow> string \<Rightarrow> string list" where
  "findall_tokens cur [] = (if cur = [] then [] else [cur])"
| "findall_tokens cur (c # cs) =
     (if is_alnum c then findall_tokens (cur @ [c]) cs
      else (if cur = [] then [] else [cur]) @ findall_tokens [] cs)"

definition MIN_TOKEN_LENGTH :: nat where "MIN_TOKEN_LENGTH = 2"
definition MAX_TOKEN_LENGTH :: nat where "MAX_TOKEN_LENGTH = 50"

definition tokenize :: "string \<Rightarrow> string list" where
  "tokenize text =
     (if text = [] then []
      else let text_lower = py_lower text;
               tokens = findall_tokens [] text_lower
           in filter (\<lambda>t. MIN_TOKEN_LENGTH \<le> length t \<and> length t \<le> MAX_TOKEN_LENGTH) tokens)"

text \<open>
  The stop word set and the stemmer come from NLTK, outside the repository: they are
  parameters \<open>stops\<close> and \<open>stemmer\<close> of everything that uses them.
\<close>

definition remove_stopwords :: "string set \<Rightarrow> string list \<Rightarrow> string list" where
  "remove_stopwords stops tokens = filter (\<lambda>t. t \<notin> stops) tokens"

definition stem :: "(string \<Rightarrow> string) \<Rightarrow> string list \<Rightarrow> string list" where
  "stem stemmer tokens = map stemmer tokens"

definition process :: "string set \<Rightarrow> (string \<Rightarrow> string) \<Rightarrow> string \<Rightarrow> bool \<Rightarrow> string list" where
  "process stops stemmer text do_stem =
     (let tokens = tokenize text;
          tokens = remove_stopwords stops tokens
      in if do_stem then stem stemmer tokens else tokens)"

text \<open>The loop of \<open>process_with_positions\<close> over \<open>enumerate(raw_tokens)\<close>, from \<open>pos\<close> on.\<close>

fun pwp_loop ::
  "string set \<Rightarrow> (string \<Rightarrow> string) \<Rightarrow> nat \<Rightarrow> string list \<Rightarrow> (string \<times> nat) list
     \<Rightarrow> (string \<times> nat) list" where
  "pwp_loop stops stemmer pos [] result = result"
| "pwp_loop stops stemmer pos (token # rest) result =
     pwp_loop stops stemmer (pos + 1) rest
       (if token \<notin> stops then result @ [(stemmer token, pos)] else result)"

definition process_with_positions ::
  "string set \<Rightarrow> (string \<Rightarrow> string) \<Rightarrow> string \<Rightarrow> (string \<times> nat) list" where
  "process_with_positions stops stemmer text =
     (let raw_tokens = tokenize text in pwp_loop stops stemmer 0 raw_tokens [])"

section \<open>Python lists and numbers\<close>

text \<open>
  Python's \<open>int\<close> is \<open>int\<close>; a \<open>float\<close> is modelled as a \<open>real\<close>, so rounding errors of
  the floating point arithmetic are outside the model. Exceptions are values of \<open>py_error\<close>.
\<close>

datatype py_error =
  ZeroDivisionError | ValueError | KeyError | TemplateError | EmbeddingError | DatabaseError

text \<open>A slice bound as Python clamps it: a negative bound counts from the end.\<close>

definition slice_bound :: "nat \<Rightarrow> int \<Rightarrow> nat" where
  "slice_bound n i = (if i < 0 then nat (max 0 (int n + i)) else min n (nat i))"

text \<open>\<open>xs[start:stop]\<close> and \<open>xs[:stop]\<close>.\<close>

definition py_slice :: "'a list \<Rightarrow> int \<Rightarrow> int \<Rightarrow> 'a list" where
  "py_slice xs start stop =
     (let s = slice_bound (length xs) start; e = slice_bound (length xs) stop
      in take (e - s) (drop s xs))"

definition py_slice_to :: "'a list \<Rightarrow> int \<Rightarrow> 'a list" where
  "py_slice_to xs stop = take (slice_bound (length xs) stop) xs"

text \<open>
  The characters \<open>str.split()\<close> treats as white space, among the code points 0 to 255:
  tab, line feed, vertical tab, form feed, carriage return, the separators 28 to 31, space,
  next line (133) and no-break space (160).
\<close>

definition is_space :: "char \<Rightarrow> bool" where
  "is_space c =
     (let n = (of_char c :: nat)
      in (9 \<le> n \<and> n \<le> 13) \<or> (28 \<le> n \<and> n \<le> 32) \<or> n = 133 \<or> n = 160)"

text \<open>\<open>text.split()\<close>: the maximal runs of characters that are not white space.\<close>

fun split_run :: "string \<Rightarrow> string \<Rightarrow> string list" where
  "split_run cur [] = (if cur = [] then [] else [cur])"
| "split_run cur (c # cs) =
     (if is_space c then (if cur = [] then [] else [cur]) @ split_run [] cs
      else split_run (cur @ [c]) cs)"

definition py_split :: "string \<Rightarrow> string list" where
  "py_split text = split_run [] text"

text \<open>\<open>" ".join(ws)\<close>.\<close>

fun join_space :: "string list \<Rightarrow> string" where
  "join_space [] = []"
| "join_space [w] = w"
| "join_space (w # ws) = w @ '' '' @ join_space ws"

section \<open>Vector indexer (app/services/indexer/vector\_indexer.py)\<close>

text \<open>
  The \<open>while\<close> loop of \<open>chunk_text\<close>. Nothing in the code makes \<open>start\<close> grow, so the loop
  is a partial function: \<open>None\<close> is a run that never leaves the loop.
\<close>

partial_function (option) chunk_loop ::
  "string list \<Rightarrow> int \<Rightarrow> int \<Rightarrow> int \<Rightarrow> string list \<Rightarrow> string list option" where
  "chunk_loop words chunk_size chunk_overlap start chunks =
     (if start < int (length words)
      then let end = min (start + chunk_size) (int (length words));
               chunk = join_space (py_slice words start end)
           in chunk_loop words chunk_size chunk_overlap (start + (chunk_size - chunk_overlap))
                (chunks @ [chunk])
      else Some chunks)"

definition chunk_text :: "string \<Rightarrow> int \<Rightarrow> int \<Rightarrow> string list option" where
  "chunk_text text chunk_size chunk_overlap =
     (if text = [] then Some []
      else let words = py_split text
           in if int (length words) \<le> chunk_size then Some [text]
              else chunk_loop words chunk_size chunk_overlap 0 [])"

text \<open>The rows the indexer reads and writes.\<close>

record Document =
  d_url :: string
  d_title :: "string option"
  d_clean_content :: "string option"
  d_source :: string

record DocumentEmbedding =
  e_document_id :: string
  e_chunk_index :: nat
  e_chunk_text :: string
  e_embedding :: "real list"

record InvertedIndex =
  ii_term :: string
  ii_document_id :: string
  ii_term_frequency :: int

record DocumentStats =
  ds_document_id :: string
  ds_total_terms :: int
  ds_unique_terms :: int

record CollectionStats =
  total_documents :: int
  avg_document_length :: real

text \<open>
  The database as the session sees it: the documents by primary key, the rows of
  \<open>document_embeddings\<close>, \<open>inverted_index\<close> and \<open>document_stats\<close>, and the row of
  \<open>collection_stats\<close> with id 1, if there is one.
\<close>

record database =
  documents :: "string \<rightharpoonup> Document"
  document_embeddings :: "DocumentEmbedding list"
  inverted_index :: "InvertedIndex list"
  document_stats :: "DocumentStats list"
  collection_stats :: "CollectionStats option"

text \<open>The rows \<open>index_document_vectors\<close> adds, one per pair of \<open>zip(chunks, embeddings)\<close>.\<close>

fun new_embeddings ::
  "string \<Rightarrow> nat \<Rightarrow> string list \<Rightarrow> real list list \<Rightarrow> DocumentEmbedding list" where
  "new_embeddings doc_id idx (chunk # chunks) (embedding # embeddings) =
     \<lparr>e_document_id = doc_id, e_chunk_index = idx, e_chunk_text = chunk,
      e_embedding = embedding\<rparr> # new_embeddings doc_id (idx + 1) chunks embeddings"
| "new_embeddings doc_id idx _ _ = []"

text \<open>
  \<open>index_document_vectors\<close>. The embedding model is outside the repository:
  \<open>generate_embeddings\<close> is a parameter that returns the vectors or raises. The chunking
  parameters are the settings \<open>chunk_size\<close> and \<open>chunk_overlap\<close>. The result is the returned
  count and the database after the call; \<open>None\<close> when the chunking never returns.
\<close>

definition index_document_vectors ::
  "(string list \<Rightarrow> py_error + real list list) \<Rightarrow> int \<Rightarrow> int \<Rightarrow> string \<Rightarrow> database
     \<Rightarrow> (int \<times> database) option" where
  "index_document_vectors generate_embeddings chunk_size chunk_overlap doc_id db =
     (case documents db doc_id of
        None \<Rightarrow> Some (0, db)
      | Some doc \<Rightarrow>
          (case d_clean_content doc of
             None \<Rightarrow> Some (0, db)
           | Some content \<Rightarrow>
               if content = [] then Some (0, db)
               else (case chunk_text content chunk_size chunk_overlap of
                       None \<Rightarrow> None
                     | Some chunks \<Rightarrow>
                         if chunks = [] then Some (0, db)
                         else (case generate_embeddings chunks of
                                 Inl e \<Rightarrow> Some (0, db)
                               | Inr embeddings \<Rightarrow>
                                   Some (int (length chunks),
                                     db\<lparr>document_embeddings :=
                                       filter (\<lambda>r. e_document_id r \<noteq> doc_id)
                                         (document_embeddings db)
                                       @ new_embeddings doc_id 0 chunks embeddings\<rparr>)))))"

section \<open>BM25 scorer (app/services/search/bm25.py)\<close>

text \<open>\<open>math.log\<close> raises \<open>ValueError\<close> outside the positive numbers.\<close>

definition py_log :: "real \<Rightarrow> py_error + real" where
  "py_log x = (if x \<le> 0 then Inl ValueError else Inr (ln x))"

text \<open>Float division raises \<open>ZeroDivisionError\<close> on a zero divisor.\<close>

definition py_fdiv :: "real \<Rightarrow> real \<Rightarrow> py_error + real" where
  "py_fdiv x y = (if y = 0 then Inl ZeroDivisionError else Inr (x / y))"

text \<open>
  The document frequency query: for each query term that has rows in \<open>inverted_index\<close>,
  the number of its rows (one row per term and document).
\<close>

definition doc_frequencies :: "database \<Rightarrow> string list \<Rightarrow> (string \<rightharpoonup> int)" where
  "doc_frequencies db query_terms =
     (\<lambda>t. let n = length (filter (\<lambda>r. ii_term r = t) (inverted_index db))
          in if t \<in> set query_terms \<and> 0 < n then Some (int n) else None)"

text \<open>\<open>d.get(key, default)\<close>.\<close>

definition dict_get :: "('k \<rightharpoonup> 'v) \<Rightarrow> 'k \<Rightarrow> 'v \<Rightarrow> 'v" where
  "dict_get d key dflt = (case d key of None \<Rightarrow> dflt | Some v \<Rightarrow> v)"

text \<open>The loop that fills \<open>idf_scores\<close>.\<close>

fun idf_loop ::
  "int \<Rightarrow> (string \<rightharpoonup> int) \<Rightarrow> string list \<Rightarrow> (string \<rightharpoonup> real)
     \<Rightarrow> py_error + (string \<rightharpoonup> real)" where
  "idf_loop N dfs [] idf_scores = Inr idf_scores"
| "idf_loop N dfs (term # rest) idf_scores =
     (let df = dict_get dfs term 0
      in if df = 0 then idf_loop N dfs rest (idf_scores(term \<mapsto> 0))
         else (case py_log ((real_of_int N - real_of_int df + 0.5) / (real_of_int df + 0.5) + 1) of
                 Inl e \<Rightarrow> Inl e
               | Inr v \<Rightarrow> idf_loop N dfs rest (idf_scores(term \<mapsto> v))))"

definition active_terms_of :: "(string \<rightharpoonup> real) \<Rightarrow> string list \<Rightarrow> string list" where
  "active_terms_of idf_scores query_terms =
     filter (\<lambda>t. dict_get idf_scores t 0 > 0) query_terms"

text \<open>
  The rows of the join of \<open>inverted_index\<close> with \<open>document_stats\<close> for the active terms:
  document, term, term frequency and document length.
\<close>

definition index_rows :: "database \<Rightarrow> string list \<Rightarrow> (string \<times> string \<times> int \<times> int) list" where
  "index_rows db active_terms =
     concat (map (\<lambda>r. map (\<lambda>s. (ii_document_id r, ii_term r, ii_term_frequency r, ds_total_terms s))
                          (filter (\<lambda>s. ds_document_id s = ii_document_id r) (document_stats db)))
                 (filter (\<lambda>r. ii_term r \<in> set active_terms) (inverted_index db)))"

text \<open>The loop that adds up \<open>doc_scores\<close>.\<close>

fun score_loop ::
  "real \<Rightarrow> real \<Rightarrow> real \<Rightarrow> (string \<rightharpoonup> real) \<Rightarrow> (string \<times> string \<times> int \<times> int) list
     \<Rightarrow> (string \<rightharpoonup> real) \<Rightarrow> py_error + (string \<rightharpoonup> real)" where
  "score_loop k1 b avgdl idf_scores [] doc_scores = Inr doc_scores"
| "score_loop k1 b avgdl idf_scores ((doc_id, term, tf, doc_len) # rows) doc_scores =
     (case idf_scores term of
        None \<Rightarrow> Inl KeyError
      | Some idf \<Rightarrow>
          (case py_fdiv (b * real_of_int doc_len) avgdl of
             Inl e \<Rightarrow> Inl e
           | Inr q \<Rightarrow>
               (case py_fdiv (real_of_int tf * (k1 + 1)) (real_of_int tf + k1 * (1 - b + q)) of
                  Inl e \<Rightarrow> Inl e
                | Inr tf_component \<Rightarrow>
                    score_loop k1 b avgdl idf_scores rows
                      (doc_scores(doc_id \<mapsto> dict_get doc_scores doc_id 0 + idf * tf_component)))))"

text \<open>
  \<open>bm25_search\<close> up to the scores: the active terms and \<open>doc_scores\<close>. An early
  \<open>return [], 0\<close> is the result with no scores. What follows in the source sorts the scores,
  cuts the page and rounds each score to four digits. The settings \<open>bm25_k1\<close> and \<open>bm25_b\<close>
  are the parameters \<open>k1\<close> and \<open>b\<close>.
\<close>

definition bm25_scores ::
  "string set \<Rightarrow> (string \<Rightarrow> string) \<Rightarrow> real \<Rightarrow> real \<Rightarrow> string \<Rightarrow> database
     \<Rightarrow> py_error + (string list \<times> (string \<rightharpoonup> real))" where
  "bm25_scores stops stemmer k1 b query db =
     (let query_terms = process stops stemmer query True
      in if query_terms = [] then Inr ([], Map.empty)
         else (case collection_stats db of
                 None \<Rightarrow> Inr ([], Map.empty)
               | Some coll_stats \<Rightarrow>
                   if total_documents coll_stats = 0 then Inr ([], Map.empty)
                   else let N = total_documents coll_stats;
                            avgdl = avg_document_length coll_stats;
                            dfs = doc_frequencies db query_terms
                        in (case idf_loop N dfs query_terms Map.empty of
                              Inl e \<Rightarrow> Inl e
                            | Inr idf_scores \<Rightarrow>
                                let active_terms = active_terms_of idf_scores query_terms
                                in if active_terms = [] then Inr ([], Map.empty)
                                   else (case score_loop k1 b avgdl idf_scores
                                                (index_rows db active_terms) Map.empty of
                                           Inl e \<Rightarrow> Inl e
                                         | Inr doc_scores \<Rightarrow> Inr (active_terms, doc_scores)))))"

text \<open>
  \<open>pattern.sub(repl, text)\<close> for the pattern \<open>re.escape(term)\<close> with \<open>re.IGNORECASE\<close>.
  A replacement string with a backslash is a template, which \<open>re\<close> compiles before it looks
  for matches (\<open>parse_template\<close> of CPython 3.11). The tokenizer takes a backslash together
  with the character after it; a backslash at the end is an error. The exceptions of the
  template, \<open>re.error\<close> and \<open>IndexError\<close> for an unknown group name, are the one value
  \<open>TemplateError\<close>.
\<close>

definition backslash :: char where
  "backslash = CHR 0x5C"

fun template_tokens :: "string \<Rightarrow> py_error + string list" where
  "template_tokens [] = Inr []"
| "template_tokens [c] = (if c = backslash then Inl TemplateError else Inr [[c]])"
| "template_tokens (c # d # ds) =
     (if c = backslash
      then (case template_tokens ds of Inl e \<Rightarrow> Inl e | Inr ts \<Rightarrow> Inr ([c, d] # ts))
      else (case template_tokens (d # ds) of Inl e \<Rightarrow> Inl e | Inr ts \<Rightarrow> Inr ([c] # ts)))"

text \<open>A compiled template: literal text and references to the whole match, group 0.\<close>

datatype template_part = Literal string | WholeMatch

definition is_digit :: "char \<Rightarrow> bool" where
  "is_digit c = (let n = (of_char c :: nat) in 48 \<le> n \<and> n \<le> 57)"

definition is_octdigit :: "char \<Rightarrow> bool" where
  "is_octdigit c = (let n = (of_char c :: nat) in 48 \<le> n \<and> n \<le> 55)"

definition is_ascii_letter :: "char \<Rightarrow> bool" where
  "is_ascii_letter c =
     (let n = (of_char c :: nat) in (97 \<le> n \<and> n \<le> 122) \<or> (65 \<le> n \<and> n \<le> 90))"

definition digit_value :: "char \<Rightarrow> nat" where
  "digit_value c = of_char c - 48"

text \<open>A token that is one octal digit.\<close>

definition is_octal_token :: "string \<Rightarrow> bool" where
  "is_octal_token t = (case t of [d] \<Rightarrow> is_octdigit d | _ \<Rightarrow> False)"

text \<open>The value of a list of octal digit tokens, most significant first.\<close>

definition octal_value :: "string list \<Rightarrow> nat" where
  "octal_value ts = foldl (\<lambda>v t. 8 * v + digit_value (hd t)) 0 ts"

text \<open>The characters of \<open>ESCAPES\<close>: \<open>\a \b \f \n \r \t \v\<close> and the backslash itself.\<close>

definition simple_escape :: "char \<Rightarrow> char option" where
  "simple_escape c =
     (if c = CHR ''a'' then Some (CHR 0x07)
      else if c = CHR ''b'' then Some (CHR 0x08)
      else if c = CHR ''f'' then Some (CHR 0x0C)
      else if c = CHR ''n'' then Some (CHR 0x0A)
      else if c = CHR ''r'' then Some (CHR 0x0D)
      else if c = CHR ''t'' then Some (CHR 0x09)
      else if c = CHR ''v'' then Some (CHR 0x0B)
      else if c = backslash then Some backslash
      else None)"

text \<open>
  The name in \<open>\g<name>\<close> is read by \<open>int\<close>: white space around it (tab to carriage
  return, space, and 133 and 160 beyond ASCII), one sign, then digits, with single
  underscores between digits, no more than \<open>sys.get_int_max_str_digits()\<close> of them, 4300
  unless configured otherwise. The pattern has no group but the whole match, group 0, so
  the name is good only when it reads as zero.
\<close>

definition is_int_space :: "char \<Rightarrow> bool" where
  "is_int_space c =
     (let n = (of_char c :: nat) in (9 \<le> n \<and> n \<le> 13) \<or> n = 32 \<or> n = 133 \<or> n = 160)"

fun digits_with_underscores :: "bool \<Rightarrow> string \<Rightarrow> bool" where
  "digits_with_underscores after_digit [] = after_digit"
| "digits_with_underscores after_digit (c # cs) =
     (if is_digit c then digits_with_underscores True cs
      else if c = CHR ''_'' then after_digit \<and> digits_with_underscores False cs
      else False)"

definition int_max_str_digits :: nat where
  "int_max_str_digits = 4300"

definition group_name_is_zero :: "string \<Rightarrow> bool" where
  "group_name_is_zero name =
     (let stripped = rev (dropWhile is_int_space (rev (dropWhile is_int_space name)));
          body = (case stripped of
                    [] \<Rightarrow> []
                  | c # rest \<Rightarrow> if c = CHR ''+'' \<or> c = CHR ''-'' then rest else stripped);
          digits = filter is_digit body
      in digits_with_underscores False body \<and> length digits \<le> int_max_str_digits
         \<and> list_all (\<lambda>d. d = CHR ''0'') digits)"

text \<open>
  The escape of the character \<open>c\<close> after a backslash, with the tokens \<open>ts\<close> that follow:
  the part it stands for and the number of tokens of \<open>ts\<close> it takes. A digit from 1 to 9
  is good only as the start of an octal escape of three digits up to 377, since it
  would name a group otherwise.
\<close>

definition parse_escape :: "char \<Rightarrow> string list \<Rightarrow> py_error + template_part \<times> nat" where
  "parse_escape c ts =
     (if c = CHR ''g'' then
        (case ts of
           [] \<Rightarrow> Inl TemplateError
         | t # rest \<Rightarrow>
             if t \<noteq> ''<'' then Inl TemplateError
             else let name_tokens = takeWhile (\<lambda>u. u \<noteq> ''>'') rest;
                      name = concat name_tokens
                  in if length name_tokens = length rest \<or> name = [] then Inl TemplateError
                     else if group_name_is_zero name
                          then Inr (WholeMatch, length name_tokens + 2)
                          else Inl TemplateError)
      else if c = CHR ''0'' then
        (let digits = takeWhile is_octal_token (take 2 ts)
         in Inr (Literal [char_of (octal_value digits mod 256)], length digits))
      else if is_digit c then
        (case ts of
           [d2] # [d3] # rest \<Rightarrow>
             if is_digit d2 \<and> is_octdigit c \<and> is_octdigit d2 \<and> is_octdigit d3
             then (let v = octal_value [[c], [d2], [d3]]
                   in if 255 < v then Inl TemplateError else Inr (Literal [char_of v], 2))
             else Inl TemplateError
         | _ \<Rightarrow> Inl TemplateError)
      else (case simple_escape c of
              Some e \<Rightarrow> Inr (Literal [e], 0)
            | None \<Rightarrow>
                if is_ascii_letter c then Inl TemplateError
                else Inr (Literal [backslash, c], 0)))"

function parse_parts :: "string list \<Rightarrow> py_error + template_part list" where
  "parse_parts [] = Inr []"
| "parse_parts (t # ts) =
     (case t of
        [b, c] \<Rightarrow>
          (case parse_escape c ts of
             Inl e \<Rightarrow> Inl e
           | Inr (part, n) \<Rightarrow>
               (case parse_parts (drop n ts) of
                  Inl e \<Rightarrow> Inl e
                | Inr parts \<Rightarrow> Inr (part # parts)))
      | _ \<Rightarrow>
          (case parse_parts ts of
             Inl e \<Rightarrow> Inl e
           | Inr parts \<Rightarrow> Inr (Literal t # parts)))"
  by pat_completeness auto
termination
  by (relation "measure length") auto

definition compile_template :: "string \<Rightarrow> py_error + template_part list" where
  "compile_template repl =
     (case template_tokens repl of Inl e \<Rightarrow> Inl e | Inr ts \<Rightarrow> parse_parts ts)"

text \<open>The text a compiled template stands for at a match.\<close>

definition expand_template :: "template_part list \<Rightarrow> string \<Rightarrow> string" where
  "expand_template parts matched =
     concat (map (\<lambda>p. case p of Literal s \<Rightarrow> s | WholeMatch \<Rightarrow> matched) parts)"

text \<open>
  The matches are found left to right and do not overlap; a match is a stretch of the text
  that equals the term up to case.
\<close>

definition ci_match :: "string \<Rightarrow> string \<Rightarrow> bool" where
  "ci_match term s =
     (length term \<le> length s \<and> py_lower (take (length term) s) = py_lower term)"

fun sub_ci :: "string \<Rightarrow> template_part list \<Rightarrow> string \<Rightarrow> string" where
  "sub_ci term parts [] = []"
| "sub_ci term parts (c # cs) =
     (if ci_match term (c # cs)
      then expand_template parts (take (length term) (c # cs))
           @ sub_ci term parts (drop (length term - 1) cs)
      else c # sub_ci term parts cs)"

text \<open>
  A replacement without a backslash is taken as it is. The empty pattern matches before
  every character and at the end.
\<close>

definition re_sub_ci :: "string \<Rightarrow> string \<Rightarrow> string \<Rightarrow> py_error + string" where
  "re_sub_ci term repl s =
     (case (if backslash \<in> set repl then compile_template repl else Inr [Literal repl]) of
        Inl e \<Rightarrow> Inl e
      | Inr parts \<Rightarrow>
          Inr (if term = []
               then expand_template parts []
                    @ concat (map (\<lambda>c. c # expand_template parts []) s)
               else sub_ci term parts s))"

fun highlight_loop :: "string list \<Rightarrow> string \<Rightarrow> py_error + string" where
  "highlight_loop [] result = Inr result"
| "highlight_loop (term # terms) result =
     (case re_sub_ci term (''<mark>'' @ term @ ''</mark>'') result of
        Inl e \<Rightarrow> Inl e
      | Inr replaced \<Rightarrow> highlight_loop terms replaced)"

definition highlight_terms :: "string \<Rightarrow> string list \<Rightarrow> py_error + string" where
  "highlight_terms text query_terms =
     (if text = [] then Inr [] else highlight_loop query_terms text)"

section \<open>Hybrid ranker (app/services/search/hybrid.py)\<close>

record BM25Result =
  bm_document_id :: string
  bm_score :: real
  bm_title :: string
  bm_url :: string
  bm_source :: string
  bm_snippet :: string

record SemanticResult =
  sr_document_id :: string
  sr_score :: real
  sr_title :: string
  sr_url :: string
  sr_source :: string
  sr_snippet :: string

text \<open>
  The rank map of a result list: the loop over \<open>enumerate(results, 1)\<close>, with the document
  id read by \<open>doc_id_of\<close>.
\<close>

fun rank_loop :: "('r \<Rightarrow> string) \<Rightarrow> int \<Rightarrow> 'r list \<Rightarrow> (string \<rightharpoonup> int) \<Rightarrow> (string \<rightharpoonup> int)" where
  "rank_loop doc_id_of rank [] ranks = ranks"
| "rank_loop doc_id_of rank (result # results) ranks =
     rank_loop doc_id_of (rank + 1) results (ranks(doc_id_of result \<mapsto> rank))"

text \<open>\<open>1.0 / (k + rank)\<close>.\<close>

definition reciprocal_rank :: "int \<Rightarrow> int \<Rightarrow> py_error + real" where
  "reciprocal_rank k rank = py_fdiv 1 (real_of_int (k + rank))"

text \<open>The loop over \<open>all_doc_ids\<close> that fills \<open>rrf_scores\<close>.\<close>

fun rrf_loop ::
  "int \<Rightarrow> (string \<rightharpoonup> int) \<Rightarrow> (string \<rightharpoonup> int) \<Rightarrow> string list \<Rightarrow> (string \<rightharpoonup> real)
     \<Rightarrow> py_error + (string \<rightharpoonup> real)" where
  "rrf_loop k bm25_ranks semantic_ranks [] rrf_scores = Inr rrf_scores"
| "rrf_loop k bm25_ranks semantic_ranks (doc_id # doc_ids) rrf_scores =
     (case (case bm25_ranks doc_id of
              None \<Rightarrow> Inr 0
            | Some r \<Rightarrow> (case reciprocal_rank k r of Inl e \<Rightarrow> Inl e | Inr x \<Rightarrow> Inr (0 + x))) of
        Inl e \<Rightarrow> Inl e
      | Inr score1 \<Rightarrow>
          (case (case semantic_ranks doc_id of
                   None \<Rightarrow> Inr score1
                 | Some r \<Rightarrow>
                     (case reciprocal_rank k r of Inl e \<Rightarrow> Inl e | Inr x \<Rightarrow> Inr (score1 + x))) of
             Inl e \<Rightarrow> Inl e
           | Inr score \<Rightarrow>
               rrf_loop k bm25_ranks semantic_ranks doc_ids (rrf_scores(doc_id \<mapsto> score))))"

text \<open>
  \<open>hybrid_search\<close> from the two fetched lists to \<open>rrf_scores\<close>. \<open>all_doc_ids\<close> is a set in
  the source; here its elements are listed once each, the BM25 ids first. What follows in
  the source sorts \<open>rrf_scores\<close>, cuts the page and rounds each score to six digits. The
  setting \<open>rrf_k\<close> is the parameter \<open>k\<close>.
\<close>

definition hybrid_rrf_scores ::
  "int \<Rightarrow> BM25Result list \<Rightarrow> SemanticResult list \<Rightarrow> py_error + (string \<rightharpoonup> real)" where
  "hybrid_rrf_scores k bm25_results semantic_results =
     (let bm25_ranks = rank_loop bm_document_id 1 bm25_results Map.empty;
          semantic_ranks = rank_loop sr_document_id 1 semantic_results Map.empty;
          all_doc_ids = remdups (map bm_document_id bm25_results
                                 @ map sr_document_id semantic_results)
      in rrf_loop k bm25_ranks semantic_ranks all_doc_ids Map.empty)"

section \<open>Recursive RAG controller (app/services/rag/recursive.py)\<close>

record RetrievedContext =
  rc_document_id :: string
  rc_chunk_text :: string
  rc_title :: string
  rc_url :: string
  rc_source :: string
  rc_relevance_score :: real

text \<open>An entry of \<open>build_source_list\<close> and the dictionary \<open>generate_answer\<close> returns.\<close>

record source_entry =
  se_document_id :: string
  se_title :: string
  se_url :: string
  se_source :: string
  se_relevance_score :: real

record answer_result =
  ar_answer :: string
  ar_sources :: "source_entry list"
  ar_model :: string

text \<open>\<open>round(x, ndigits)\<close>: to the nearest multiple of \<open>10^-ndigits\<close>, a tie to the even one.\<close>

definition py_round :: "real \<Rightarrow> nat \<Rightarrow> real" where
  "py_round x ndigits =
     (let s = x * 10 ^ ndigits; f = \<lfloor>s\<rfloor>; r = s - real_of_int f
      in real_of_int (if r < 1 / 2 then f else if 1 / 2 < r then f + 1
                      else if even f then f else f + 1) / 10 ^ ndigits)"

definition build_source_list :: "RetrievedContext list \<Rightarrow> source_entry list" where
  "build_source_list contexts =
     map (\<lambda>ctx. \<lparr>se_document_id = rc_document_id ctx, se_title = rc_title ctx,
                 se_url = rc_url ctx, se_source = rc_source ctx,
                 se_relevance_score = py_round (rc_relevance_score ctx) 4\<rparr>) contexts"

text \<open>The dictionary \<open>recursive_rag\<close> returns.\<close>

record rag_result =
  answer :: string
  sources :: "source_entry list"
  model :: string
  depth_reached :: int
  queries_executed :: "string list"

text \<open>
  The controller calls \<open>retrieve_context\<close>, \<open>generate_answer\<close> and
  \<open>generate_follow_up_queries\<close>, which read the database and talk to the language model.
  They are parameters that act on a state \<open>'w\<close> of the world outside, so that two calls
  with the same arguments may answer differently. \<open>generate_answer\<close> and
  \<open>generate_follow_up_queries\<close> catch the exceptions of the model; \<open>retrieve_context\<close>
  may raise.
\<close>

type_synonym 'w retriever = "string \<Rightarrow> int \<Rightarrow> 'w \<Rightarrow> (py_error + RetrievedContext list) \<times> 'w"
type_synonym 'w answerer = "string \<Rightarrow> RetrievedContext list \<Rightarrow> 'w \<Rightarrow> answer_result \<times> 'w"
type_synonym 'w follow_up_generator = "string \<Rightarrow> string \<Rightarrow> 'w \<Rightarrow> string list \<times> 'w"

text \<open>The variables of the refinement loop, besides \<open>depth\<close>.\<close>

record rag_state =
  st_all_contexts :: "RetrievedContext list"
  st_queries_executed :: "string list"
  st_current_answer :: string
  st_result :: answer_result

text \<open>The loop over the follow-up queries: each is recorded, then retrieved with \<open>top_k=3\<close>.\<close>

fun retrieve_follow_ups ::
  "'w retriever \<Rightarrow> string list \<Rightarrow> string list \<Rightarrow> RetrievedContext list \<Rightarrow> 'w
     \<Rightarrow> (py_error + string list \<times> RetrievedContext list) \<times> 'w" where
  "retrieve_follow_ups retrieve_context [] queries new_contexts w = (Inr (queries, new_contexts), w)"
| "retrieve_follow_ups retrieve_context (fq # fqs) queries new_contexts w =
     (case retrieve_context fq 3 w of
        (Inl e, w') \<Rightarrow> (Inl e, w')
      | (Inr fq_contexts, w') \<Rightarrow>
          retrieve_follow_ups retrieve_context fqs (queries @ [fq]) (new_contexts @ fq_contexts) w')"

text \<open>The loop that adds the contexts of documents not seen yet.\<close>

fun dedup_contexts ::
  "RetrievedContext list \<Rightarrow> string set \<Rightarrow> RetrievedContext list \<Rightarrow> RetrievedContext list" where
  "dedup_contexts all_contexts seen_ids [] = all_contexts"
| "dedup_contexts all_contexts seen_ids (ctx # new_contexts) =
     (if rc_document_id ctx \<notin> seen_ids
      then dedup_contexts (all_contexts @ [ctx]) (insert (rc_document_id ctx) seen_ids) new_contexts
      else dedup_contexts all_contexts seen_ids new_contexts)"

text \<open>
  One pass through the body of the \<open>while\<close> loop, after \<open>depth += 1\<close>. The result says
  whether the body left the loop by \<open>break\<close>. The sort is stable and descending in the
  relevance score, as \<open>list.sort\<close> with \<open>reverse=True\<close> is.
\<close>

definition rag_iteration ::
  "'w retriever \<Rightarrow> 'w answerer \<Rightarrow> 'w follow_up_generator \<Rightarrow> string \<Rightarrow> int \<Rightarrow> rag_state \<Rightarrow> 'w
     \<Rightarrow> (py_error + bool \<times> rag_state) \<times> 'w" where
  "rag_iteration retrieve_context generate_answer generate_follow_up_queries query top_k st w =
     (case generate_follow_up_queries query (st_current_answer st) w of
        (follow_ups, w1) \<Rightarrow>
          if follow_ups = [] then (Inr (True, st), w1)
          else (case retrieve_follow_ups retrieve_context follow_ups (st_queries_executed st) [] w1 of
                  (Inl e, w2) \<Rightarrow> (Inl e, w2)
                | (Inr (queries, new_contexts), w2) \<Rightarrow>
                    if new_contexts = [] then (Inr (True, st\<lparr>st_queries_executed := queries\<rparr>), w2)
                    else let seen_ids = set (map rc_document_id (st_all_contexts st));
                             merged = dedup_contexts (st_all_contexts st) seen_ids new_contexts;
                             sorted_contexts = sort_key (\<lambda>c. - rc_relevance_score c) merged;
                             best_contexts = py_slice_to sorted_contexts (top_k * 2)
                         in (case generate_answer query best_contexts w2 of
                               (res, w3) \<Rightarrow>
                                 (Inr (False,
                                    \<lparr>st_all_contexts = sorted_contexts,
                                     st_queries_executed = queries,
                                     st_current_answer = ar_answer res,
                                     st_result = res\<rparr>), w3))))"

text \<open>The \<open>while depth < max_depth\<close> loop; it returns the depth and the variables.\<close>

function rag_loop ::
  "'w retriever \<Rightarrow> 'w answerer \<Rightarrow> 'w follow_up_generator \<Rightarrow> string \<Rightarrow> int \<Rightarrow> int \<Rightarrow> int
     \<Rightarrow> rag_state \<Rightarrow> 'w \<Rightarrow> (py_error + int \<times> rag_state) \<times> 'w" where
  "rag_loop retrieve_context generate_answer generate_follow_up_queries query max_depth top_k
       depth st w =
     (if depth < max_depth
      then (case rag_iteration retrieve_context generate_answer generate_follow_up_queries
                   query top_k st w of
              (Inl e, w') \<Rightarrow> (Inl e, w')
            | (Inr (broke, st'), w') \<Rightarrow>
                if broke then (Inr (depth + 1, st'), w')
                else rag_loop retrieve_context generate_answer generate_follow_up_queries query
                       max_depth top_k (depth + 1) st' w')
      else (Inr (depth, st), w))"
  by pat_completeness auto
termination
  by (relation "measure (\<lambda>(rc, ga, gf, query, max_depth, top_k, depth, st, w).
        nat (max_depth - depth))") auto

definition recursive_rag ::
  "'w retriever \<Rightarrow> 'w answerer \<Rightarrow> 'w follow_up_generator \<Rightarrow> string \<Rightarrow> int \<Rightarrow> int \<Rightarrow> 'w
     \<Rightarrow> (py_error + rag_result) \<times> 'w" where
  "recursive_rag retrieve_context generate_answer generate_follow_up_queries query max_depth
       top_k w =
     (case retrieve_context query top_k w of
        (Inl e, w1) \<Rightarrow> (Inl e, w1)
      | (Inr contexts, w1) \<Rightarrow>
          (case generate_answer query contexts w1 of
             (res, w2) \<Rightarrow>
               (case rag_loop retrieve_context generate_answer generate_follow_up_queries query
                       max_depth top_k 0
                       \<lparr>st_all_contexts = contexts, st_queries_executed = [query],
                        st_current_answer = ar_answer res, st_result = res\<rparr> w2 of
                  (Inl e, w3) \<Rightarrow> (Inl e, w3)
                | (Inr (depth, st), w3) \<Rightarrow>
                    (Inr \<lparr>answer = st_current_answer st,
                          sources = build_source_list (py_slice_to (st_all_contexts st) 10),
                          model = ar_model (st_result st),
                          depth_reached = depth,
                          queries_executed = st_queries_executed st\<rparr>, w3))))"

section \<open>Query processor (app/services/search/query\_processor.py)\<close>

text \<open>\<open>query.strip()\<close> and \<open>re.sub(r"\s+", " ", cleaned)\<close>.\<close>

definition py_strip :: "string \<Rightarrow> string" where
  "py_strip s = rev (dropWhile is_space (rev (dropWhile is_space s)))"

text \<open>\<open>in_run\<close> says that the character before was white space.\<close>

fun collapse_run :: "bool \<Rightarrow> string \<Rightarrow> string" where
  "collapse_run in_run [] = []"
| "collapse_run in_run (c # cs) =
     (if is_space c
      then (if in_run then collapse_run True cs else CHR '' '' # collapse_run True cs)
      else c # collapse_run False cs)"

definition collapse_spaces :: "string \<Rightarrow> string" where
  "collapse_spaces s = collapse_run False s"

text \<open>The string that is hashed: \<open>" ".join(sorted(set(tokens)))\<close>.\<close>

definition cache_token_str :: "string list \<Rightarrow> string" where
  "cache_token_str tokens = join_space (sorted_list_of_set (set tokens))"

record processed_query =
  pq_original :: string
  pq_cleaned :: string
  pq_tokens :: "string list"
  pq_raw_tokens :: "string list"
  pq_cache_key :: "128 word"

text \<open>
  \<open>process_query\<close>. The hash \<open>hashlib.md5(s.encode())\<close> is outside the repository: it is
  the parameter \<open>md5\<close>, from the string to the digest of 128 bits, which \<open>hexdigest\<close>
  writes as 32 hexadecimal digits.
\<close>

definition process_query ::
  "string set \<Rightarrow> (string \<Rightarrow> string) \<Rightarrow> (string \<Rightarrow> 128 word) \<Rightarrow> string \<Rightarrow> processed_query" where
  "process_query stops stemmer md5 query =
     (let cleaned = py_strip query;
          cleaned = collapse_spaces cleaned;
          tokens = process stops stemmer cleaned True;
          raw_tokens = remove_stopwords stops (tokenize cleaned);
          token_str = cache_token_str tokens;
          cache_key = md5 token_str
      in \<lparr>pq_original = query, pq_cleaned = cleaned, pq_tokens = tokens,
          pq_raw_tokens = raw_tokens, pq_cache_key = cache_key\<rparr>)"

section \<open>Autocomplete trie (app/services/autocomplete.py)\<close>

text \<open>
  A node holds its children, a dictionary from characters to nodes that keeps the order
  of insertion, the end marker, the stored term and its frequency.
\<close>

datatype TrieNode =
  TrieNode (tn_children: "(char \<times> TrieNode) list") (tn_is_end: bool) (tn_term: string)
    (tn_frequency: int)

definition new_node :: TrieNode where
  "new_node = TrieNode [] False [] 0"

record AutocompleteTrie =
  root :: TrieNode
  trie_size :: nat

definition new_trie :: AutocompleteTrie where
  "new_trie = \<lparr>root = new_node, trie_size = 0\<rparr>"

text \<open>
  The walk of \<open>insert\<close> along the characters of the lower-cased term, from \<open>node\<close>: a
  missing child is created at the end of the dictionary, and the node at the end of the
  walk takes the term and the frequency.
\<close>

fun insert_node :: "string \<Rightarrow> string \<Rightarrow> int \<Rightarrow> TrieNode \<Rightarrow> TrieNode" where
  "insert_node [] term_str frequency (TrieNode children is_end t f) =
     TrieNode children True term_str frequency"
| "insert_node (c # cs) term_str frequency (TrieNode children is_end t f) =
     (let child = (case map_of children c of None \<Rightarrow> new_node | Some n \<Rightarrow> n)
      in TrieNode (AList.update c (insert_node cs term_str frequency child) children) is_end t f)"

definition insert_term :: "AutocompleteTrie \<Rightarrow> string \<Rightarrow> int \<Rightarrow> AutocompleteTrie" where
  "insert_term trie term_str frequency =
     \<lparr>root = insert_node (py_lower term_str) term_str frequency (root trie),
      trie_size = trie_size trie + 1\<rparr>"

text \<open>The walk of \<open>search_prefix\<close>; \<open>None\<close> is the early \<open>return []\<close>.\<close>

fun find_node :: "string \<Rightarrow> TrieNode \<Rightarrow> TrieNode option" where
  "find_node [] node = Some node"
| "find_node (c # cs) node =
     (case map_of (tn_children node) c of None \<Rightarrow> None | Some child \<Rightarrow> find_node cs child)"

text \<open>\<open>_dfs\<close>; a result \<open>{"term": t, "frequency": f}\<close> is the pair \<open>(t, f)\<close>.\<close>

fun dfs :: "TrieNode \<Rightarrow> (string \<times> int) list" where
  "dfs (TrieNode children is_end t f) =
     (if is_end then [(t, f)] else []) @ concat (map (\<lambda>p. dfs (snd p)) children)"

definition search_prefix :: "AutocompleteTrie \<Rightarrow> string \<Rightarrow> int \<Rightarrow> (string \<times> int) list" where
  "search_prefix trie prefix_str limit =
     (case find_node (py_lower prefix_str) (root trie) of
        None \<Rightarrow> []
      | Some node \<Rightarrow>
          let results = dfs node;
              results = sort_key (\<lambda>x. (- snd x, fst x)) results
          in py_slice_to results limit)"

text \<open>The trie after a list of calls of \<open>insert\<close> on the empty trie.\<close>

definition trie_of :: "(string \<times> int) list \<Rightarrow> AutocompleteTrie" where
  "trie_of inserts = fold (\<lambda>(term_str, frequency) trie. insert_term trie term_str frequency)
     inserts new_trie"

text \<open>
  What the insertions keep true of a node reached by the characters \<open>path\<close>: a node that
  ends a term stores a term whose lower-cased form is \<open>path\<close>.
\<close>

fun stores_own_path :: "string \<Rightarrow> TrieNode \<Rightarrow> bool" where
  "stores_own_path path (TrieNode children is_end t f) =
     ((\<not> is_end \<or> py_lower t = path)
      \<and> list_all (\<lambda>p. stores_own_path (path @ [fst p]) (snd p)) children)"

chapter \<open>Verification\<close>

section \<open>Pipeline equivalence\<close>

lemma pwp_loop_tokens:
  "map fst (pwp_loop stops stemmer pos tokens result) =
     map fst result @ map stemmer (filter (\<lambda>t. t \<notin> stops) tokens)"
  by (induction tokens arbitrary: pos result) simp_all

lemma pwp_tokens_eq_process:
  "map fst (process_with_positions stops stemmer text) = process stops stemmer text True"
  by (simp add: process_with_positions_def process_def remove_stopwords_def stem_def
      pwp_loop_tokens)

text \<open>
  Claim C2. For every text, the stemmed tokens of \<open>process_with_positions\<close> (the first
  components of its pairs) form the same multiset as the tokens of \<open>process\<close> with stemming
  on, whatever the stop word set and the stemmer are.
\<close>

theorem C2_pipeline_equivalence:
  "mset (map fst (process_with_positions stops stemmer text)) =
     mset (process stops stemmer text True)"
  by (simp only: pwp_tokens_eq_process)

section \<open>Chunking: the loop in closed form, termination and divergence\<close>

text \<open>
  When the step \<open>chunk_size - chunk_overlap\<close> is positive the loop returns, and its result
  is known: one chunk per start offset \<open>start + k * step\<close>, as long as the offset is below
  the number of words.
\<close>

lemma chunk_loop_closed:
  assumes step: "0 < cs - co"
  shows "chunk_loop words cs co start chunks =
           Some (chunks @ map (\<lambda>k. join_space (py_slice words (start + int k * (cs - co))
                     (min (start + int k * (cs - co) + cs) (int (length words)))))
                   [0..<nat ((int (length words) - start + (cs - co) - 1) div (cs - co))])"
proof (induction "nat (int (length words) - start)" arbitrary: start chunks rule: less_induct)
  case less
  let ?len = "int (length words)"
  let ?st = "cs - co"
  show ?case
  proof (cases "start < ?len")
    case False
    then have "(?len - start + ?st - 1) div ?st \<le> 0"
      using step by (smt (verit, best) div_neg_pos_less0 div_pos_pos_trivial)
    then show ?thesis using False by (subst chunk_loop.simps) simp
  next
    case True
    have m: "nat ((?len - start + ?st - 1) div ?st) = Suc (nat ((?len - (start + ?st) + ?st - 1) div ?st))"
    proof -
      have "(?len - start + ?st - 1) div ?st = (?len - start - 1) div ?st + 1"
        using step by (smt (verit, best) div_add_self1)
      moreover have "0 \<le> (?len - start - 1) div ?st"
        using True step by (simp add: pos_imp_zdiv_nonneg_iff)
      ultimately show ?thesis by (simp add: algebra_simps nat_add_distrib)
    qed
    have dec: "nat (?len - (start + ?st)) < nat (?len - start)"
      using True step by linarith
    show ?thesis
      apply (subst chunk_loop.simps)
      apply (simp only: True if_True Let_def less.hyps [OF dec] m)
      apply (simp add: upt_conv_Cons map_Suc_upt [symmetric] del: upt_Suc)
      apply (simp add: algebra_simps)
      done
  qed
qed

lemma chunk_loop_diverges_aux:
  assumes "chunk_loop words cs co start chunks = Some r"
  shows "\<not> (cs - co \<le> 0 \<and> start < int (length words))"
proof (rule chunk_loop.raw_induct
    [where P = "\<lambda>ws sz ov st acc res. \<not> (sz - ov \<le> 0 \<and> st < int (length ws))", OF _ assms])
  fix loop :: "string list \<Rightarrow> int \<Rightarrow> int \<Rightarrow> int \<Rightarrow> string list \<Rightarrow> string list option"
  fix ws sz ov st acc res
  assume IH: "\<And>ws sz ov st acc res. loop ws sz ov st acc = Some res \<Longrightarrow>
                \<not> (sz - ov \<le> 0 \<and> st < int (length ws))"
  assume body: "(if st < int (length ws)
      then let end = min (st + sz) (int (length ws));
               chunk = join_space (py_slice ws st end)
           in loop ws sz ov (st + (sz - ov)) (acc @ [chunk])
      else Some acc) = Some res"
  show "\<not> (sz - ov \<le> 0 \<and> st < int (length ws))"
  proof
    assume inv: "sz - ov \<le> 0 \<and> st < int (length ws)"
    with body have
      "loop ws sz ov (st + (sz - ov))
         (acc @ [join_space (py_slice ws st (min (st + sz) (int (length ws))))]) = Some res"
      by (simp add: Let_def)
    from IH [OF this] inv show False by simp
  qed
qed

lemma chunk_loop_diverges:
  "cs - co \<le> 0 \<Longrightarrow> start < int (length words) \<Longrightarrow> chunk_loop words cs co start chunks = None"
  using chunk_loop_diverges_aux [of words cs co start chunks] by (cases "chunk_loop words cs co start chunks") auto

text \<open>
  Claim C10. For every text and all parameters with \<open>chunk_size \<ge> 1\<close> and
  \<open>0 \<le> chunk_overlap < chunk_size\<close>, \<open>chunk_text\<close> returns a list of chunks. An iteration
  of the loop at \<open>start\<close> continues at \<open>start + (chunk_size - chunk_overlap)\<close>, which is
  larger than \<open>start\<close> when \<open>chunk_overlap < chunk_size\<close>. The bound on the overlap is needed:
  with \<open>chunk_size \<ge> 1\<close> and \<open>chunk_overlap \<ge> chunk_size\<close>, \<open>chunk_text\<close> never returns on a
  text of more than \<open>chunk_size\<close> words.
\<close>

theorem C10_chunk_text_terminates:
  "(1 \<le> chunk_size \<and> 0 \<le> chunk_overlap \<and> chunk_overlap < chunk_size
      \<longrightarrow> (\<exists>chunks. chunk_text text chunk_size chunk_overlap = Some chunks))
   \<and> (start < int (length words) \<longrightarrow>
        chunk_loop words chunk_size chunk_overlap start acc =
          chunk_loop words chunk_size chunk_overlap (start + (chunk_size - chunk_overlap))
            (acc @ [join_space (py_slice words start
                      (min (start + chunk_size) (int (length words))))])
        \<and> (chunk_overlap < chunk_size \<longrightarrow> start < start + (chunk_size - chunk_overlap)))
   \<and> (1 \<le> chunk_size \<and> chunk_size \<le> chunk_overlap
        \<and> chunk_size < int (length (py_split text))
      \<longrightarrow> chunk_text text chunk_size chunk_overlap = None)"
proof (intro conjI impI)
  assume "1 \<le> chunk_size \<and> 0 \<le> chunk_overlap \<and> chunk_overlap < chunk_size"
  then have "0 < chunk_size - chunk_overlap" by simp
  from chunk_loop_closed [OF this]
  show "\<exists>chunks. chunk_text text chunk_size chunk_overlap = Some chunks"
    by (simp add: chunk_text_def Let_def)
next
  assume "start < int (length words)"
  then show "chunk_loop words chunk_size chunk_overlap start acc =
          chunk_loop words chunk_size chunk_overlap (start + (chunk_size - chunk_overlap))
            (acc @ [join_space (py_slice words start
                      (min (start + chunk_size) (int (length words))))])"
    by (subst chunk_loop.simps) (simp add: Let_def)
next
  assume "chunk_overlap < chunk_size"
  then show "start < start + (chunk_size - chunk_overlap)" by simp
next
  assume a: "1 \<le> chunk_size \<and> chunk_size \<le> chunk_overlap
        \<and> chunk_size < int (length (py_split text))"
  then have pos: "0 < int (length (py_split text))" by linarith
  have ne: "text \<noteq> []"
  proof
    assume "text = []"
    with pos show False by (simp add: py_split_def)
  qed
  from a pos have "chunk_loop (py_split text) chunk_size chunk_overlap 0 [] = None"
    by (intro chunk_loop_diverges) simp_all
  with a ne show "chunk_text text chunk_size chunk_overlap = None"
    by (simp add: chunk_text_def Let_def)
qed

theorem C10_chunk_text_terminates_witness:
  "(1 \<le> (2::int) \<and> 0 \<le> (1::int) \<and> (1::int) < 2)
   \<and> (\<exists>chunks. chunk_text ''a b c'' 2 1 = Some chunks)
   \<and> (1 \<le> (2::int) \<and> (2::int) \<le> 2 \<and> 2 < int (length (py_split ''a b c'')))
   \<and> chunk_text ''a b c'' 2 2 = None"
proof -
  have w: "py_split ''a b c'' = [''a'', ''b'', ''c'']"
    by (simp add: py_split_def is_space_def)
  show ?thesis
    using C10_chunk_text_terminates [of 2 1 "''a b c''" 0 "[''a'']" "[]"]
      C10_chunk_text_terminates [of 2 2 "''a b c''" 0 "[''a'']" "[]"]
    by (simp add: w)
qed

section \<open>Embedding failure\<close>

text \<open>
  Claim C8. If \<open>generate_embeddings\<close> raises on the chunks of the document during
  \<open>index_document_vectors\<close>, the call returns 0 and the database is the one before the
  call: no row of \<open>document_embeddings\<close> is deleted or added.
\<close>

theorem C8_embedding_failure_keeps_rows:
  assumes "documents db doc_id = Some doc"
    and "d_clean_content doc = Some content"
    and "chunk_text content chunk_size chunk_overlap = Some chunks"
    and "generate_embeddings chunks = Inl e"
  shows "index_document_vectors generate_embeddings chunk_size chunk_overlap doc_id db
           = Some (0, db)"
  using assms by (simp add: index_document_vectors_def)

theorem C8_embedding_failure_keeps_rows_witness:
  "index_document_vectors (\<lambda>chunks. Inl EmbeddingError) 512 50 ''d1''
     \<lparr>documents = [''d1'' \<mapsto> \<lparr>d_url = ''http://a'', d_title = None,
                     d_clean_content = Some ''hello world'', d_source = ''custom''\<rparr>],
      document_embeddings =
        [\<lparr>e_document_id = ''d1'', e_chunk_index = 0, e_chunk_text = ''old text'',
          e_embedding = [1, 0]\<rparr>],
      inverted_index = [], document_stats = [], collection_stats = None\<rparr>
   = Some (0,
     \<lparr>documents = [''d1'' \<mapsto> \<lparr>d_url = ''http://a'', d_title = None,
                     d_clean_content = Some ''hello world'', d_source = ''custom''\<rparr>],
      document_embeddings =
        [\<lparr>e_document_id = ''d1'', e_chunk_index = 0, e_chunk_text = ''old text'',
          e_embedding = [1, 0]\<rparr>],
      inverted_index = [], document_stats = [], collection_stats = None\<rparr>)"
proof -
  have c: "chunk_text ''hello world'' 512 50 = Some [''hello world'']"
    by (simp add: chunk_text_def py_split_def is_space_def)
  let ?doc = "\<lparr>d_url = ''http://a'', d_title = None,
                d_clean_content = Some ''hello world'', d_source = ''custom''\<rparr>"
  show ?thesis
    by (rule C8_embedding_failure_keeps_rows [where doc = ?doc
          and content = "''hello world''" and chunks = "[''hello world'']"
          and e = EmbeddingError, OF _ _ c]) simp_all
qed

section \<open>BM25: the inverse document frequency of a term in every document\<close>

lemma dict_get_Some: "m k = Some v \<Longrightarrow> dict_get m k d = v"
  by (simp add: dict_get_def)

lemma idf_loop_result:
  assumes "0 \<le> N" and "\<And>t. 0 \<le> dict_get freqs t 0"
  shows "idf_loop N freqs terms m =
           Inr (\<lambda>t. if t \<in> set terms
                     then Some (if dict_get freqs t 0 = 0 then 0
                                else ln ((real_of_int N - real_of_int (dict_get freqs t 0) + 0.5)
                                         / (real_of_int (dict_get freqs t 0) + 0.5) + 1))
                     else m t)"
proof (induction terms arbitrary: m)
  case Nil
  show ?case by simp
next
  case (Cons u us)
  let ?df = "dict_get freqs u 0"
  show ?case
  proof (cases "?df = 0")
    case True
    then show ?thesis by (auto simp: Cons.IH Let_def)
  next
    case False
    with assms(2) [of u] have pos: "0 < ?df" by simp
    have "0 < (real_of_int N - real_of_int ?df + 0.5) / (real_of_int ?df + 0.5) + 1"
    proof -
      have "(real_of_int N - real_of_int ?df + 0.5) / (real_of_int ?df + 0.5) + 1
              = (real_of_int N + 1) / (real_of_int ?df + 0.5)"
        using pos by (simp add: field_simps)
      also have "0 < \<dots>" using pos assms(1) by simp
      finally show ?thesis .
    qed
    then show ?thesis using False by (auto simp: Cons.IH Let_def py_log_def)
  qed
qed

lemma doc_frequencies_nonneg: "0 \<le> dict_get (doc_frequencies db query_terms) t 0"
  by (simp add: doc_frequencies_def dict_get_def Let_def)

text \<open>
  Claim C1, as amended. For every collection with \<open>N \<ge> 1\<close> documents and every stemmed
  query term \<open>t\<close> whose document frequency is \<open>N\<close>, the loop over the query terms returns
  the scores, the inverse document frequency of \<open>t\<close> is \<open>ln (0.5 / (N + 0.5) + 1)\<close>, which
  is positive, and \<open>t\<close> stays among the active terms: it is not dropped, and the search
  goes on to score the rows of the active terms. The claim as stated (the score is at most
  0 and the term is dropped) fails for the collection of one document that holds the term
  once: the term is active and the document's score is \<open>ln (4 / 3)\<close>.
\<close>

theorem C1_idf_of_ubiquitous_term:
  assumes "collection_stats db = Some coll_stats"
    and "1 \<le> total_documents coll_stats"
    and "t \<in> set (process stops stemmer query True)"
    and "int (length (filter (\<lambda>r. ii_term r = t) (inverted_index db)))
           = total_documents coll_stats"
  shows "\<exists>idf_scores.
           idf_loop (total_documents coll_stats)
               (doc_frequencies db (process stops stemmer query True))
               (process stops stemmer query True) Map.empty = Inr idf_scores
           \<and> idf_scores t = Some (ln (0.5 / (real_of_int (total_documents coll_stats) + 0.5) + 1))
           \<and> 0 < ln (0.5 / (real_of_int (total_documents coll_stats) + 0.5) + 1)
           \<and> t \<in> set (active_terms_of idf_scores (process stops stemmer query True))
           \<and> bm25_scores stops stemmer k1 b query db =
               (case score_loop k1 b (avg_document_length coll_stats) idf_scores
                       (index_rows db (active_terms_of idf_scores
                          (process stops stemmer query True))) Map.empty of
                  Inl e \<Rightarrow> Inl e
                | Inr doc_scores \<Rightarrow>
                    Inr (active_terms_of idf_scores (process stops stemmer query True),
                         doc_scores))"
proof -
  let ?N = "total_documents coll_stats"
  let ?terms = "process stops stemmer query True"
  from assms(3,4) have df: "dict_get (doc_frequencies db ?terms) t 0 = ?N"
    using assms(2) by (auto simp: doc_frequencies_def dict_get_def Let_def)
  have N0: "0 \<le> ?N" using assms(2) by simp
  have pos: "0 < ln (0.5 / (real_of_int ?N + 0.5) + 1)"
    using assms(2) by (simp add: ln_gt_zero)
  let ?idf = "\<lambda>u. if u \<in> set ?terms
                     then Some (if dict_get (doc_frequencies db ?terms) u 0 = 0 then 0
                                else ln ((real_of_int ?N
                                          - real_of_int (dict_get (doc_frequencies db ?terms) u 0)
                                          + 0.5)
                                         / (real_of_int (dict_get (doc_frequencies db ?terms) u 0)
                                            + 0.5) + 1))
                     else Map.empty u"
  have run: "idf_loop ?N (doc_frequencies db ?terms) ?terms Map.empty = Inr ?idf"
    by (rule idf_loop_result [OF N0 doc_frequencies_nonneg])
  have val: "?idf t = Some (ln (0.5 / (real_of_int ?N + 0.5) + 1))"
    using assms(2,3) by (simp add: df)
  have "dict_get ?idf t 0 = ln (0.5 / (real_of_int ?N + 0.5) + 1)"
    using val by (rule dict_get_Some)
  with pos assms(3) have act: "t \<in> set (active_terms_of ?idf ?terms)"
    unfolding active_terms_of_def by simp
  then have ne: "active_terms_of ?idf ?terms \<noteq> []" by auto
  have qne: "?terms \<noteq> []" using assms(3) by auto
  have N1: "?N \<noteq> 0" using assms(2) by simp
  have all: "bm25_scores stops stemmer k1 b query db =
               (case score_loop k1 b (avg_document_length coll_stats) ?idf
                       (index_rows db (active_terms_of ?idf ?terms)) Map.empty of
                  Inl e \<Rightarrow> Inl e
                | Inr doc_scores \<Rightarrow> Inr (active_terms_of ?idf ?terms, doc_scores))"
    unfolding bm25_scores_def Let_def
    by (simp only: qne assms(1) N1 run ne if_False option.case sum.case)
  from run val pos act all show ?thesis by blast
qed


theorem C1_idf_of_ubiquitous_term_witness:
  "collection_stats \<lparr>documents = Map.empty, document_embeddings = [],
        inverted_index = [\<lparr>ii_term = ''cat'', ii_document_id = ''d1'', ii_term_frequency = 1\<rparr>],
        document_stats = [\<lparr>ds_document_id = ''d1'', ds_total_terms = 1, ds_unique_terms = 1\<rparr>],
        collection_stats = Some \<lparr>total_documents = 1, avg_document_length = 1\<rparr>\<rparr> = Some \<lparr>total_documents = 1, avg_document_length = 1\<rparr>
   \<and> (1::int) \<le> total_documents \<lparr>total_documents = 1, avg_document_length = 1\<rparr>
   \<and> ''cat'' \<in> set (process {} (\<lambda>t. t) ''cat'' True)
   \<and> int (length (filter (\<lambda>r. ii_term r = ''cat'') (inverted_index \<lparr>documents = Map.empty, document_embeddings = [],
        inverted_index = [\<lparr>ii_term = ''cat'', ii_document_id = ''d1'', ii_term_frequency = 1\<rparr>],
        document_stats = [\<lparr>ds_document_id = ''d1'', ds_total_terms = 1, ds_unique_terms = 1\<rparr>],
        collection_stats = Some \<lparr>total_documents = 1, avg_document_length = 1\<rparr>\<rparr>))) = 1
   \<and> (\<exists>idf_scores.
         idf_loop 1 (doc_frequencies \<lparr>documents = Map.empty, document_embeddings = [],
        inverted_index = [\<lparr>ii_term = ''cat'', ii_document_id = ''d1'', ii_term_frequency = 1\<rparr>],
        document_stats = [\<lparr>ds_document_id = ''d1'', ds_total_terms = 1, ds_unique_terms = 1\<rparr>],
        collection_stats = Some \<lparr>total_documents = 1, avg_document_length = 1\<rparr>\<rparr> [''cat'']) [''cat''] Map.empty = Inr idf_scores
         \<and> idf_scores ''cat'' = Some (ln (4 / 3))
         \<and> ''cat'' \<in> set (active_terms_of idf_scores [''cat'']))"
proof -
  let ?db = "\<lparr>documents = Map.empty, document_embeddings = [],
        inverted_index = [\<lparr>ii_term = ''cat'', ii_document_id = ''d1'', ii_term_frequency = 1\<rparr>],
        document_stats = [\<lparr>ds_document_id = ''d1'', ds_total_terms = 1, ds_unique_terms = 1\<rparr>],
        collection_stats = Some \<lparr>total_documents = 1, avg_document_length = 1\<rparr>\<rparr>"
  let ?cs = "\<lparr>total_documents = 1, avg_document_length = 1\<rparr>"
  have p: "process {} (\<lambda>t. t) ''cat'' True = [''cat'']"
    by code_simp
  have h1: "collection_stats ?db = Some ?cs" by simp
  have h2: "1 \<le> total_documents ?cs" by simp
  have h3: "''cat'' \<in> set (process {} (\<lambda>t. t) ''cat'' True)" by (simp add: p)
  have h4: "int (length (filter (\<lambda>r. ii_term r = ''cat'') (inverted_index ?db)))
              = total_documents ?cs" by simp
  from C1_idf_of_ubiquitous_term [OF h1 h2 h3 h4]
  obtain idf_scores where
    a: "idf_loop (total_documents ?cs) (doc_frequencies ?db (process {} (\<lambda>t. t) ''cat'' True))
          (process {} (\<lambda>t. t) ''cat'' True) Map.empty = Inr idf_scores"
    and b: "idf_scores ''cat'' = Some (ln (0.5 / (real_of_int (total_documents ?cs) + 0.5) + 1))"
    and c: "''cat'' \<in> set (active_terms_of idf_scores (process {} (\<lambda>t. t) ''cat'' True))"
    by blast
  from a have a': "idf_loop 1 (doc_frequencies ?db [''cat'']) [''cat''] Map.empty = Inr idf_scores"
    by (simp only: p CollectionStats.simps)
  from b have b': "idf_scores ''cat'' = Some (ln (4 / 3))" by simp
  from c have c': "''cat'' \<in> set (active_terms_of idf_scores [''cat''])" by (simp only: p)
  from a' b' c' have "\<exists>idf_scores.
         idf_loop 1 (doc_frequencies ?db [''cat'']) [''cat''] Map.empty = Inr idf_scores
         \<and> idf_scores ''cat'' = Some (ln (4 / 3))
         \<and> ''cat'' \<in> set (active_terms_of idf_scores [''cat''])" by blast
  with h1 h2 h3 h4 show ?thesis by simp
qed

theorem C1_ubiquitous_term_scores_counterexample:
  "dict_get (doc_frequencies
       \<lparr>documents = Map.empty, document_embeddings = [],
        inverted_index = [\<lparr>ii_term = ''cat'', ii_document_id = ''d1'', ii_term_frequency = 1\<rparr>],
        document_stats = [\<lparr>ds_document_id = ''d1'', ds_total_terms = 1, ds_unique_terms = 1\<rparr>],
        collection_stats = Some \<lparr>total_documents = 1, avg_document_length = 1\<rparr>\<rparr> [''cat'']) ''cat'' 0 = 1
   \<and> bm25_scores {} (\<lambda>t. t) 1.2 0.75 ''cat''
       \<lparr>documents = Map.empty, document_embeddings = [],
        inverted_index = [\<lparr>ii_term = ''cat'', ii_document_id = ''d1'', ii_term_frequency = 1\<rparr>],
        document_stats = [\<lparr>ds_document_id = ''d1'', ds_total_terms = 1, ds_unique_terms = 1\<rparr>],
        collection_stats = Some \<lparr>total_documents = 1, avg_document_length = 1\<rparr>\<rparr> = Inr ([''cat''], [''d1'' \<mapsto> ln (4 / 3)])
   \<and> (0::real) < ln (4 / 3)"
proof -
  have p: "process {} (\<lambda>t. t) ''cat'' True = [''cat'']"
    by code_simp
  show ?thesis
    by (simp add: bm25_scores_def p doc_frequencies_def dict_get_def active_terms_of_def
        index_rows_def py_log_def py_fdiv_def)
qed

section \<open>Highlighting\<close>

text \<open>
  Claim C6 says that \<open>highlight_terms\<close> keeps the casing of the matched text inside the
  tags. The code puts the query term there: in \<open>Search Engine\<close> the match \<open>Search\<close> of
  the token \<open>search\<close> comes back in lower case.
\<close>

theorem C6_highlight_loses_casing:
  "highlight_terms ''Search Engine'' [''search''] = Inr ''<mark>search</mark> Engine''"
  by code_simp

section \<open>Reciprocal rank fusion\<close>

lemma rank_loop_absent:
  "d \<notin> f ` set xs \<Longrightarrow> rank_loop f r xs m d = m d"
  by (induction xs arbitrary: r m) auto

lemma rank_loop_at:
  "distinct (map f xs) \<Longrightarrow> i < length xs \<Longrightarrow> rank_loop f r xs m (f (xs ! i)) = Some (r + int i)"
proof (induction xs arbitrary: r m i)
  case Nil
  then show ?case by simp
next
  case (Cons x xs)
  show ?case
  proof (cases i)
    case 0
    with Cons.prems show ?thesis by (simp add: rank_loop_absent)
  next
    case (Suc j)
    with Cons.prems have "rank_loop f (r + 1) xs (m(f x \<mapsto> r)) (f (xs ! j)) = Some (r + 1 + int j)"
      by (intro Cons.IH) simp_all
    with Suc show ?thesis by simp
  qed
qed

lemma rank_loop_lower:
  "rank_loop f r xs m d = Some v \<Longrightarrow> r \<le> v \<or> m d = Some v"
proof (induction xs arbitrary: r m)
  case Nil
  then show ?case by simp
next
  case (Cons x xs)
  from Cons.prems have "rank_loop f (r + 1) xs (m(f x \<mapsto> r)) d = Some v" by simp
  from Cons.IH [OF this] show ?case
    by (cases "d = f x") auto
qed

lemma rank_loop_positive:
  "rank_loop f 1 xs Map.empty d = Some v \<Longrightarrow> 1 \<le> v"
  using rank_loop_lower [of f 1 xs Map.empty d v] by simp

lemma rrf_loop_result:
  assumes "0 \<le> k"
    and "\<And>d v. br d = Some v \<Longrightarrow> 1 \<le> v"
    and "\<And>d v. sr d = Some v \<Longrightarrow> 1 \<le> v"
  shows "rrf_loop k br sr ids m =
           Inr (\<lambda>d. if d \<in> set ids
                     then Some ((case br d of None \<Rightarrow> 0 | Some r \<Rightarrow> 1 / real_of_int (k + r))
                              + (case sr d of None \<Rightarrow> 0 | Some r \<Rightarrow> 1 / real_of_int (k + r)))
                     else m d)"
proof (induction ids arbitrary: m)
  case Nil
  show ?case by simp
next
  case (Cons d ds)
  have b: "\<And>v. br d = Some v \<Longrightarrow> real_of_int (k + v) \<noteq> 0"
    using assms(1,2) by fastforce
  have s: "\<And>v. sr d = Some v \<Longrightarrow> real_of_int (k + v) \<noteq> 0"
    using assms(1,3) by fastforce
  show ?case
    using b s
    by (cases "br d"; cases "sr d")
       (auto simp: Cons.IH reciprocal_rank_def py_fdiv_def)
qed

text \<open>
  Claim C3. The two fetched lists hold each document once (both searches build them from
  the keys of a dictionary) and the fusion constant is not negative. Then \<open>hybrid_search\<close>
  computes the scores without an error; a document at position \<open>i\<close> of the BM25 list
  (rank \<open>i + 1\<close>) and at position \<open>j\<close> of the semantic list (rank \<open>j + 1\<close>) has the score
  \<open>1 / (k + (i + 1)) + 1 / (k + (j + 1))\<close>, and a document of only one of the lists, at
  position \<open>i\<close>, has the score \<open>1 / (k + (i + 1))\<close>.
\<close>

theorem C3_rrf_scores:
  assumes "0 \<le> k"
    and "distinct (map bm_document_id bm25_results)"
    and "distinct (map sr_document_id semantic_results)"
  shows "\<exists>rrf_scores.
           hybrid_rrf_scores k bm25_results semantic_results = Inr rrf_scores
           \<and> (\<forall>i j. i < length bm25_results \<and> j < length semantic_results
                  \<and> bm_document_id (bm25_results ! i) = sr_document_id (semantic_results ! j)
                \<longrightarrow> rrf_scores (bm_document_id (bm25_results ! i))
                      = Some (1 / real_of_int (k + (int i + 1))
                              + 1 / real_of_int (k + (int j + 1))))
           \<and> (\<forall>i. i < length bm25_results
                  \<and> bm_document_id (bm25_results ! i) \<notin> sr_document_id ` set semantic_results
                \<longrightarrow> rrf_scores (bm_document_id (bm25_results ! i))
                      = Some (1 / real_of_int (k + (int i + 1))))
           \<and> (\<forall>j. j < length semantic_results
                  \<and> sr_document_id (semantic_results ! j) \<notin> bm_document_id ` set bm25_results
                \<longrightarrow> rrf_scores (sr_document_id (semantic_results ! j))
                      = Some (1 / real_of_int (k + (int j + 1))))"
proof -
  let ?br = "rank_loop bm_document_id 1 bm25_results Map.empty"
  let ?sr = "rank_loop sr_document_id 1 semantic_results Map.empty"
  let ?ids = "remdups (map bm_document_id bm25_results @ map sr_document_id semantic_results)"
  let ?rrf = "\<lambda>d. if d \<in> set ?ids
                     then Some ((case ?br d of None \<Rightarrow> 0 | Some r \<Rightarrow> 1 / real_of_int (k + r))
                              + (case ?sr d of None \<Rightarrow> 0 | Some r \<Rightarrow> 1 / real_of_int (k + r)))
                     else Map.empty d"
  have run: "hybrid_rrf_scores k bm25_results semantic_results = Inr ?rrf"
    unfolding hybrid_rrf_scores_def Let_def
    by (rule rrf_loop_result [OF assms(1)]) (erule rank_loop_positive)+
  have bm: "\<And>i. i < length bm25_results \<Longrightarrow>
              ?br (bm_document_id (bm25_results ! i)) = Some (1 + int i)"
    by (rule rank_loop_at [OF assms(2)])
  have sm: "\<And>j. j < length semantic_results \<Longrightarrow>
              ?sr (sr_document_id (semantic_results ! j)) = Some (1 + int j)"
    by (rule rank_loop_at [OF assms(3)])
  have both: "?rrf (bm_document_id (bm25_results ! i))
                = Some (1 / real_of_int (k + (int i + 1)) + 1 / real_of_int (k + (int j + 1)))"
    if "i < length bm25_results" "j < length semantic_results"
      "bm_document_id (bm25_results ! i) = sr_document_id (semantic_results ! j)" for i j
  proof -
    have "?sr (bm_document_id (bm25_results ! i)) = Some (1 + int j)"
      using sm [OF that(2)] that(3) by simp
    then show ?thesis using bm [OF that(1)] that(1) by (simp add: add.commute)
  qed
  have only_bm: "?rrf (bm_document_id (bm25_results ! i))
                = Some (1 / real_of_int (k + (int i + 1)))"
    if "i < length bm25_results"
      "bm_document_id (bm25_results ! i) \<notin> sr_document_id ` set semantic_results" for i
  proof -
    have "?sr (bm_document_id (bm25_results ! i)) = None"
      using that(2) by (simp add: rank_loop_absent)
    then show ?thesis using bm [OF that(1)] that(1) by (simp add: add.commute)
  qed
  have only_sm: "?rrf (sr_document_id (semantic_results ! j))
                = Some (1 / real_of_int (k + (int j + 1)))"
    if "j < length semantic_results"
      "sr_document_id (semantic_results ! j) \<notin> bm_document_id ` set bm25_results" for j
  proof -
    have "?br (sr_document_id (semantic_results ! j)) = None"
      using that(2) by (simp add: rank_loop_absent)
    then show ?thesis using sm [OF that(1)] that(1) by (simp add: add.commute)
  qed
  from run both only_bm only_sm show ?thesis by blast
qed


theorem C3_rrf_scores_witness:
  "(0::int) \<le> 60
   \<and> distinct (map bm_document_id
     [\<lparr>bm_document_id = ''d1'', bm_score = 1, bm_title = ''t'', bm_url = ''u'', bm_source = ''custom'', bm_snippet = ''s''\<rparr>,
      \<lparr>bm_document_id = ''d2'', bm_score = 1, bm_title = ''t'', bm_url = ''u'', bm_source = ''custom'', bm_snippet = ''s''\<rparr>,
      \<lparr>bm_document_id = ''d3'', bm_score = 1, bm_title = ''t'', bm_url = ''u'', bm_source = ''custom'', bm_snippet = ''s''\<rparr>])
   \<and> distinct (map sr_document_id
     [\<lparr>sr_document_id = ''d3'', sr_score = 1, sr_title = ''t'', sr_url = ''u'', sr_source = ''custom'', sr_snippet = ''s''\<rparr>,
      \<lparr>sr_document_id = ''d4'', sr_score = 1, sr_title = ''t'', sr_url = ''u'', sr_source = ''custom'', sr_snippet = ''s''\<rparr>,
      \<lparr>sr_document_id = ''d1'', sr_score = 1, sr_title = ''t'', sr_url = ''u'', sr_source = ''custom'', sr_snippet = ''s''\<rparr>])
   \<and> (\<exists>rrf_scores.
        hybrid_rrf_scores 60
     [\<lparr>bm_document_id = ''d1'', bm_score = 1, bm_title = ''t'', bm_url = ''u'', bm_source = ''custom'', bm_snippet = ''s''\<rparr>,
      \<lparr>bm_document_id = ''d2'', bm_score = 1, bm_title = ''t'', bm_url = ''u'', bm_source = ''custom'', bm_snippet = ''s''\<rparr>,
      \<lparr>bm_document_id = ''d3'', bm_score = 1, bm_title = ''t'', bm_url = ''u'', bm_source = ''custom'', bm_snippet = ''s''\<rparr>]
     [\<lparr>sr_document_id = ''d3'', sr_score = 1, sr_title = ''t'', sr_url = ''u'', sr_source = ''custom'', sr_snippet = ''s''\<rparr>,
      \<lparr>sr_document_id = ''d4'', sr_score = 1, sr_title = ''t'', sr_url = ''u'', sr_source = ''custom'', sr_snippet = ''s''\<rparr>,
      \<lparr>sr_document_id = ''d1'', sr_score = 1, sr_title = ''t'', sr_url = ''u'', sr_source = ''custom'', sr_snippet = ''s''\<rparr>] = Inr rrf_scores
        \<and> rrf_scores ''d1'' = Some (1 / 61 + 1 / 63)
        \<and> rrf_scores ''d2'' = Some (1 / 62)
        \<and> rrf_scores ''d4'' = Some (1 / 62))"
proof -
  let ?bm = "[\<lparr>bm_document_id = ''d1'', bm_score = 1, bm_title = ''t'', bm_url = ''u'', bm_source = ''custom'', bm_snippet = ''s''\<rparr>,
      \<lparr>bm_document_id = ''d2'', bm_score = 1, bm_title = ''t'', bm_url = ''u'', bm_source = ''custom'', bm_snippet = ''s''\<rparr>,
      \<lparr>bm_document_id = ''d3'', bm_score = 1, bm_title = ''t'', bm_url = ''u'', bm_source = ''custom'', bm_snippet = ''s''\<rparr>]"
  let ?sem = "[\<lparr>sr_document_id = ''d3'', sr_score = 1, sr_title = ''t'', sr_url = ''u'', sr_source = ''custom'', sr_snippet = ''s''\<rparr>,
      \<lparr>sr_document_id = ''d4'', sr_score = 1, sr_title = ''t'', sr_url = ''u'', sr_source = ''custom'', sr_snippet = ''s''\<rparr>,
      \<lparr>sr_document_id = ''d1'', sr_score = 1, sr_title = ''t'', sr_url = ''u'', sr_source = ''custom'', sr_snippet = ''s''\<rparr>]"
  have d: "distinct (map bm_document_id ?bm)" "distinct (map sr_document_id ?sem)"
    by simp_all
  from C3_rrf_scores [of 60 ?bm ?sem, OF _ d]
  obtain rrf_scores where run: "hybrid_rrf_scores 60 ?bm ?sem = Inr rrf_scores"
    and both: "\<And>i j. i < length ?bm \<and> j < length ?sem
                  \<and> bm_document_id (?bm ! i) = sr_document_id (?sem ! j)
                \<Longrightarrow> rrf_scores (bm_document_id (?bm ! i))
                      = Some (1 / real_of_int (60 + (int i + 1))
                              + 1 / real_of_int (60 + (int j + 1)))"
    and only_bm: "\<And>i. i < length ?bm
                  \<and> bm_document_id (?bm ! i) \<notin> sr_document_id ` set ?sem
                \<Longrightarrow> rrf_scores (bm_document_id (?bm ! i))
                      = Some (1 / real_of_int (60 + (int i + 1)))"
    and only_sem: "\<And>j. j < length ?sem
                  \<and> sr_document_id (?sem ! j) \<notin> bm_document_id ` set ?bm
                \<Longrightarrow> rrf_scores (sr_document_id (?sem ! j))
                      = Some (1 / real_of_int (60 + (int j + 1)))"
    by auto
  have "rrf_scores ''d1'' = Some (1 / 61 + 1 / 63)"
    using both [of 0 2] by simp
  moreover have "rrf_scores ''d2'' = Some (1 / 62)"
    using only_bm [of 1] by simp
  moreover have "rrf_scores ''d4'' = Some (1 / 62)"
    using only_sem [of 1] by simp
  ultimately show ?thesis using run d by auto
qed

section \<open>Recursive RAG without follow-up queries\<close>

text \<open>
  Claim C9. For every \<open>max_depth \<ge> 1\<close>: when the first retrieval and the first answer
  have returned and the follow-up generator, called for the first time, returns the empty
  list, \<open>recursive_rag\<close> returns with \<open>depth_reached = 1\<close>, the answer is the initial
  answer, and \<open>queries_executed\<close> is the list of the original query alone.
\<close>

theorem C9_no_follow_ups_stops_at_depth_one:
  assumes "1 \<le> max_depth"
    and "retrieve_context query top_k w0 = (Inr contexts, w1)"
    and "generate_answer query contexts w1 = (res, w2)"
    and "generate_follow_up_queries query (ar_answer res) w2 = ([], w3)"
  shows "\<exists>r. recursive_rag retrieve_context generate_answer generate_follow_up_queries
               query max_depth top_k w0 = (Inr r, w3)
             \<and> depth_reached r = 1
             \<and> answer r = ar_answer res
             \<and> queries_executed r = [query]"
proof -
  let ?st = "\<lparr>st_all_contexts = contexts, st_queries_executed = [query],
               st_current_answer = ar_answer res, st_result = res\<rparr>"
  have it: "rag_iteration retrieve_context generate_answer generate_follow_up_queries
              query top_k ?st w2 = (Inr (True, ?st), w3)"
    using assms(4) by (simp add: rag_iteration_def)
  have "rag_loop retrieve_context generate_answer generate_follow_up_queries query max_depth
          top_k 0 ?st w2 = (Inr (1, ?st), w3)"
    using assms(1) by (subst rag_loop.simps) (simp add: it)
  then show ?thesis
    using assms(2,3) by (simp add: recursive_rag_def)
qed

theorem C9_no_follow_ups_stops_at_depth_one_witness:
  "(1::int) \<le> 2
   \<and> (\<exists>r. recursive_rag (\<lambda>q k w. (Inr [], w + 1))
              (\<lambda>q cs w. (\<lparr>ar_answer = ''initial'', ar_sources = [], ar_model = ''llama''\<rparr>, w + 1))
              (\<lambda>q a w. ([], w + 1)) ''what'' 2 5 (0::nat) = (Inr r, 3)
          \<and> depth_reached r = 1
          \<and> answer r = ''initial''
          \<and> queries_executed r = [''what''])"
  using C9_no_follow_ups_stops_at_depth_one [of 2 "\<lambda>q k w. (Inr [], w + 1)" "''what''" 5 "0::nat" "[]" 1
      "\<lambda>q cs w. (\<lparr>ar_answer = ''initial'', ar_sources = [], ar_model = ''llama''\<rparr>, w + 1)"
      "\<lparr>ar_answer = ''initial'', ar_sources = [], ar_model = ''llama''\<rparr>" 2
      "\<lambda>q a w. ([], w + 1)" 3]
  by simp

section \<open>Prefix search in the trie\<close>

lemma list_all_update:
  "list_all P ps \<Longrightarrow> P (k, v) \<Longrightarrow> list_all P (AList.update k v ps)"
  by (induction ps) auto

lemma map_of_list_all:
  "list_all P ps \<Longrightarrow> map_of ps k = Some v \<Longrightarrow> P (k, v)"
  by (induction ps) (auto split: if_splits)

lemma stores_own_path_new_node: "stores_own_path path new_node"
  by (simp add: new_node_def)

lemma stores_own_path_child:
  assumes "stores_own_path path (TrieNode children is_end t f)"
  shows "stores_own_path (path @ [c]) (case map_of children c of None \<Rightarrow> new_node | Some n \<Rightarrow> n)"
proof (cases "map_of children c")
  case None
  then show ?thesis by (simp add: stores_own_path_new_node)
next
  case (Some n)
  from assms have "list_all (\<lambda>p. stores_own_path (path @ [fst p]) (snd p)) children" by simp
  from map_of_list_all [OF this Some] Some show ?thesis by simp
qed

lemma insert_node_keeps_paths:
  "stores_own_path path node \<Longrightarrow> py_lower term_str = path @ key \<Longrightarrow>
     stores_own_path path (insert_node key term_str frequency node)"
proof (induction key arbitrary: path node)
  case Nil
  then show ?case by (cases node) simp
next
  case (Cons c cs)
  obtain children is_end t f where node: "node = TrieNode children is_end t f"
    by (cases node)
  let ?child = "case map_of children c of None \<Rightarrow> new_node | Some n \<Rightarrow> n"
  have "stores_own_path (path @ [c]) ?child"
    using Cons.prems(1) unfolding node by (rule stores_own_path_child)
  moreover have "py_lower term_str = (path @ [c]) @ cs" using Cons.prems(2) by simp
  ultimately have "stores_own_path (path @ [c]) (insert_node cs term_str frequency ?child)"
    by (rule Cons.IH)
  then show ?case
    using Cons.prems(1) unfolding node
    by (simp add: Let_def list_all_update)
qed

lemma find_node_keeps_paths:
  "stores_own_path path node \<Longrightarrow> find_node key node = Some n \<Longrightarrow>
     stores_own_path (path @ key) n"
proof (induction key arbitrary: path node)
  case Nil
  then show ?case by simp
next
  case (Cons c cs)
  obtain children is_end t f where node: "node = TrieNode children is_end t f"
    by (cases node)
  from Cons.prems(2) obtain child where child: "map_of children c = Some child"
    and rest: "find_node cs child = Some n"
    unfolding node by (auto split: option.splits)
  from stores_own_path_child [OF Cons.prems(1) [unfolded node], of c] child
  have "stores_own_path (path @ [c]) child" by simp
  from Cons.IH [OF this rest] show ?case by simp
qed

lemma dfs_terms_extend_path:
  "stores_own_path path node \<Longrightarrow> x \<in> set (dfs node) \<Longrightarrow> prefix path (py_lower (fst x))"
proof (induction node arbitrary: path rule: dfs.induct)
  case (1 children is_end t f)
  from "1.prems"(2) consider "is_end" "x = (t, f)"
    | p where "p \<in> set children" "x \<in> set (dfs (snd p))"
    by (auto split: if_splits)
  then show ?case
  proof cases
    case 1
    with "1.prems"(1) show ?thesis by simp
  next
    case 2
    from "1.prems"(1) 2(1) have "stores_own_path (path @ [fst p]) (snd p)"
      by (simp add: list_all_iff)
    from "1.IH" [OF 2(1) this 2(2)] show ?thesis
      by (rule append_prefixD)
  qed
qed

lemma trie_of_keeps_paths_aux:
  "stores_own_path [] (root trie) \<Longrightarrow>
     stores_own_path [] (root (fold (\<lambda>(term_str, frequency) trie. insert_term trie term_str frequency)
        inserts trie))"
proof (induction inserts arbitrary: trie)
  case Nil
  then show ?case by simp
next
  case (Cons a inserts)
  obtain term_str frequency where a: "a = (term_str, frequency)" by (cases a)
  have "stores_own_path [] (root (insert_term trie term_str frequency))"
    using Cons.prems by (simp add: insert_term_def insert_node_keeps_paths)
  from Cons.IH [OF this] show ?case by (simp add: a)
qed

lemma trie_of_keeps_paths: "stores_own_path [] (root (trie_of inserts))"
  unfolding trie_of_def
  by (rule trie_of_keeps_paths_aux) (simp add: new_trie_def stores_own_path_new_node)

lemma sorted_results:
  "sorted_wrt (\<lambda>a b. snd b < snd a \<or> (snd a = snd b \<and> fst a \<le> fst b))
     (sort_key (\<lambda>x. (- snd x, fst x)) (xs :: (string \<times> int) list))"
proof -
  have "sorted (map (\<lambda>x. (- snd x, fst x)) (sort_key (\<lambda>x. (- snd x, fst x)) xs))"
    by (rule sorted_sort_key)
  then have "sorted_wrt (\<lambda>a b. (- snd a, fst a) \<le> (- snd b, fst b))
               (sort_key (\<lambda>x. (- snd x, fst x)) xs)"
    by (simp add: sorted_map)
  then show ?thesis
    by (rule sorted_wrt_mono_rel [rotated]) (auto simp: less_eq_prod_def)
qed

text \<open>
  Claim C7. For every trie built by insertions, every prefix \<open>p\<close> and every limit
  \<open>n \<ge> 0\<close> (the endpoint passes a limit from 1 to 20), \<open>search_prefix\<close> returns at most
  \<open>n\<close> results; they are sorted by frequency, highest first, and by term, ascending, among
  equal frequencies; every returned term in lower case starts with \<open>p\<close> in lower case; and
  when the walk along the prefix finds no node the result is empty.
\<close>

theorem C7_search_prefix:
  assumes "0 \<le> limit"
  shows "int (length (search_prefix (trie_of inserts) p limit)) \<le> limit
    \<and> sorted_wrt (\<lambda>a b. snd b < snd a \<or> (snd a = snd b \<and> fst a \<le> fst b))
        (search_prefix (trie_of inserts) p limit)
    \<and> (\<forall>x \<in> set (search_prefix (trie_of inserts) p limit).
          prefix (py_lower p) (py_lower (fst x)))
    \<and> (find_node (py_lower p) (root (trie_of inserts)) = None
          \<longrightarrow> search_prefix (trie_of inserts) p limit = [])"
proof (cases "find_node (py_lower p) (root (trie_of inserts))")
  case None
  with assms show ?thesis by (simp add: search_prefix_def)
next
  case (Some node)
  let ?sorted = "sort_key (\<lambda>x. (- snd x, fst x)) (dfs node)"
  have res: "search_prefix (trie_of inserts) p limit = take (nat limit) ?sorted"
    using assms by (simp add: search_prefix_def Some py_slice_to_def slice_bound_def Let_def min_def)
       
  have len: "int (length (take (nat limit) ?sorted)) \<le> limit"
    using assms by simp
  have srt: "sorted_wrt (\<lambda>a b. snd b < snd a \<or> (snd a = snd b \<and> fst a \<le> fst b))
               (take (nat limit) ?sorted)"
    using sorted_results [of "dfs node"] by (rule sorted_wrt_take)
  have "stores_own_path ([] @ py_lower p) node"
    using trie_of_keeps_paths Some by (rule find_node_keeps_paths)
  then have pre: "\<forall>x \<in> set (take (nat limit) ?sorted). prefix (py_lower p) (py_lower (fst x))"
    using dfs_terms_extend_path [of "py_lower p" node] by (auto dest!: in_set_takeD)
  from len srt pre show ?thesis by (simp add: res Some)
qed


theorem C7_search_prefix_witness:
  "(0::int) \<le> 5
   \<and> search_prefix (trie_of [(''search engine'', 10), (''search optimization'', 5),
          (''sorting algorithms'', 3)]) ''search'' 5
       = [(''search engine'', 10), (''search optimization'', 5)]
   \<and> int (length (search_prefix (trie_of [(''search engine'', 10), (''search optimization'', 5),
          (''sorting algorithms'', 3)]) ''search'' 5)) \<le> 5
   \<and> prefix (py_lower ''search'') (py_lower ''search optimization'')"
proof -
  have run: "search_prefix (trie_of [(''search engine'', 10), (''search optimization'', 5),
          (''sorting algorithms'', 3)]) ''search'' 5
       = [(''search engine'', 10), (''search optimization'', 5)]"
    by code_simp
  from C7_search_prefix [of 5 "[(''search engine'', 10), (''search optimization'', 5),
          (''sorting algorithms'', 3)]" "''search''"]
  show ?thesis unfolding run by simp
qed

section \<open>The cache key of a query\<close>

lemma join_space_Cons:
  "join_space (w # ws) = w @ (if ws = [] then [] else CHR '' '' # join_space ws)"
  by (cases ws) simp_all

lemma join_space_first:
  assumes "CHR '' '' \<notin> set w"
  shows "takeWhile (\<lambda>c. c \<noteq> CHR '' '') (join_space (w # ws)) = w"
    and "dropWhile (\<lambda>c. c \<noteq> CHR '' '') (join_space (w # ws))
           = (if ws = [] then [] else CHR '' '' # join_space ws)"
proof -
  from assms have w: "\<forall>x \<in> set w. x \<noteq> CHR '' ''" by auto
  show "takeWhile (\<lambda>c. c \<noteq> CHR '' '') (join_space (w # ws)) = w"
    using w by (simp add: join_space_Cons)
  show "dropWhile (\<lambda>c. c \<noteq> CHR '' '') (join_space (w # ws))
           = (if ws = [] then [] else CHR '' '' # join_space ws)"
    using w by (simp add: join_space_Cons)
qed

lemma join_space_inject:
  assumes "\<forall>w \<in> set ws. CHR '' '' \<notin> set w" and "\<forall>v \<in> set vs. CHR '' '' \<notin> set v"
    and "ws \<noteq> []" and "vs \<noteq> []"
    and "join_space ws = join_space vs"
  shows "ws = vs"
  using assms
proof (induction ws arbitrary: vs)
  case Nil
  then show ?case by simp
next
  case (Cons w ws)
  from Cons.prems(4) obtain v vs' where vs: "vs = v # vs'" by (cases vs) auto
  have w: "CHR '' '' \<notin> set w" and v: "CHR '' '' \<notin> set v"
    using Cons.prems(1,2) vs by simp_all
  from Cons.prems(5) have eq: "join_space (w # ws) = join_space (v # vs')" by (simp add: vs)
  have "w = v"
    using join_space_first(1) [OF w, of ws] join_space_first(1) [OF v, of vs'] eq by simp
  have rest: "(if ws = [] then [] else CHR '' '' # join_space ws)
                = (if vs' = [] then [] else CHR '' '' # join_space vs')"
    using join_space_first(2) [OF w, of ws] join_space_first(2) [OF v, of vs'] eq by simp
  show ?case
  proof (cases "ws = []")
    case True
    with rest have "vs' = []" by (auto split: if_splits)
    with True \<open>w = v\<close> vs show ?thesis by simp
  next
    case False
    with rest have ne: "vs' \<noteq> []" and j: "join_space ws = join_space vs'"
      by (auto split: if_splits)
    have "ws = vs'"
      using Cons.prems(1,2) vs False ne j by (intro Cons.IH) simp_all
    with \<open>w = v\<close> vs show ?thesis by simp
  qed
qed

lemma cache_token_str_differs:
  assumes "tokens1 \<noteq> []" and "tokens2 \<noteq> []"
    and "set tokens1 \<inter> set tokens2 = {}"
    and "\<forall>t \<in> set tokens1 \<union> set tokens2. CHR '' '' \<notin> set t"
  shows "cache_token_str tokens1 \<noteq> cache_token_str tokens2"
proof
  assume eq: "cache_token_str tokens1 = cache_token_str tokens2"
  let ?l1 = "sorted_list_of_set (set tokens1)" and ?l2 = "sorted_list_of_set (set tokens2)"
  have s1: "set ?l1 = set tokens1" and s2: "set ?l2 = set tokens2" by simp_all
  have "?l1 = ?l2"
  proof (rule join_space_inject)
    show "\<forall>w \<in> set ?l1. CHR '' '' \<notin> set w" using assms(4) by simp
    show "\<forall>v \<in> set ?l2. CHR '' '' \<notin> set v" using assms(4) by simp
    show "?l1 \<noteq> []" using assms(1) s1 by (metis set_empty)
    show "?l2 \<noteq> []" using assms(2) s2 by (metis set_empty)
    show "join_space ?l1 = join_space ?l2" using eq by (simp add: cache_token_str_def)
  qed
  then have "set tokens1 = set tokens2" using s1 s2 by metis
  with assms(1,3) show False by auto
qed

text \<open>
  The cleaning of the query changes no token, and the tokens of a text are the tokens of
  its words, in order.
\<close>

lemma space_lower: "is_space c \<Longrightarrow> py_lower_char c = c \<and> \<not> is_alnum c"
  by (auto simp: is_space_def py_lower_char_def is_alnum_def Let_def)

lemma findall_separator:
  "\<not> is_alnum d \<Longrightarrow>
     findall_tokens cur (a @ d # b) = findall_tokens cur a @ findall_tokens [] b"
  by (induction a arbitrary: cur) auto

lemma findall_trailing_spaces:
  "\<forall>c \<in> set t. is_space c \<Longrightarrow>
     findall_tokens cur (map py_lower_char (s @ t)) = findall_tokens cur (map py_lower_char s)"
proof (induction t rule: rev_induct)
  case Nil
  show ?case by simp
next
  case (snoc x t)
  then have x: "\<not> is_alnum (py_lower_char x)" using space_lower [of x] by simp
  have "findall_tokens cur (map py_lower_char (s @ t @ [x]))
          = findall_tokens cur (map py_lower_char (s @ t) @ py_lower_char x # [])"
    by simp
  also have "\<dots> = findall_tokens cur (map py_lower_char (s @ t))"
    using findall_separator [OF x, of cur "map py_lower_char (s @ t)" "[]"] by simp
  also have "\<dots> = findall_tokens cur (map py_lower_char s)"
    using snoc by simp
  finally show ?case .
qed

lemma findall_leading_spaces:
  "findall_tokens [] (map py_lower_char (dropWhile is_space s))
     = findall_tokens [] (map py_lower_char s)"
proof (induction s)
  case Nil
  show ?case by simp
next
  case (Cons c s)
  then show ?case using space_lower [of c] by (cases "is_space c") simp_all
qed

lemma findall_collapse_run:
  "(in_run \<longrightarrow> cur = []) \<Longrightarrow>
     findall_tokens cur (map py_lower_char (collapse_run in_run s))
       = findall_tokens cur (map py_lower_char s)"
proof (induction s arbitrary: in_run cur)
  case Nil
  show ?case by simp
next
  case (Cons c s)
  show ?case
  proof (cases "is_space c")
    case True
    then have c: "py_lower_char c = c" "\<not> is_alnum c" using space_lower by simp_all
    have b: "py_lower_char (CHR '' '') = CHR '' ''" "\<not> is_alnum (CHR '' '')"
      using space_lower [of "CHR '' ''"] by (simp_all add: is_space_def)
    have IH: "findall_tokens [] (map py_lower_char (collapse_run True s))
                = findall_tokens [] (map py_lower_char s)"
      by (rule Cons.IH) simp
    show ?thesis
    proof (cases in_run)
      case True
      with Cons.prems have "cur = []" by simp
      with True \<open>is_space c\<close> c IH show ?thesis by simp
    next
      case False
      with \<open>is_space c\<close> c b IH show ?thesis by simp
    qed
  next
    case False
    have "findall_tokens cur' (map py_lower_char (collapse_run False s))
            = findall_tokens cur' (map py_lower_char s)" for cur'
      by (rule Cons.IH) simp
    with False show ?thesis by simp
  qed
qed

lemma tokenize_eq:
  "tokenize s = filter (\<lambda>t. MIN_TOKEN_LENGTH \<le> length t \<and> length t \<le> MAX_TOKEN_LENGTH)
                  (findall_tokens [] (map py_lower_char s))"
  by (simp add: tokenize_def py_lower_def Let_def)

lemma findall_py_strip:
  "findall_tokens [] (map py_lower_char (py_strip s)) = findall_tokens [] (map py_lower_char s)"
proof -
  let ?q = "dropWhile is_space s"
  let ?t = "rev (takeWhile is_space (rev ?q))"
  have split: "?q = py_strip s @ ?t"
    unfolding py_strip_def
    by (metis rev_append rev_rev_ident takeWhile_dropWhile_id)
  have sp: "\<forall>c \<in> set ?t. is_space c"
    by (auto dest: set_takeWhileD)
  have "findall_tokens [] (map py_lower_char (py_strip s))
          = findall_tokens [] (map py_lower_char (py_strip s @ ?t))"
    using findall_trailing_spaces [OF sp] by simp
  also have "\<dots> = findall_tokens [] (map py_lower_char ?q)"
    using split by simp
  also have "\<dots> = findall_tokens [] (map py_lower_char s)"
    by (rule findall_leading_spaces)
  finally show ?thesis .
qed

lemma tokenize_cleaned: "tokenize (collapse_spaces (py_strip q)) = tokenize q"
  by (simp add: tokenize_eq collapse_spaces_def findall_collapse_run findall_py_strip)

lemma process_query_tokens:
  "pq_tokens (process_query stops stemmer md5 q) = process stops stemmer q True"
  by (simp add: process_query_def Let_def process_def tokenize_cleaned)

lemma process_query_cache_key:
  "pq_cache_key (process_query stops stemmer md5 q)
     = md5 (cache_token_str (process stops stemmer q True))"
  by (simp add: process_query_def Let_def process_def tokenize_cleaned)

lemma findall_join_split:
  "findall_tokens [] (map py_lower_char (join_space (split_run cur s)))
     = findall_tokens [] (map py_lower_char (cur @ s))"
proof (induction s arbitrary: cur)
  case Nil
  show ?case by simp
next
  case (Cons x xs)
  show ?case
  proof (cases "is_space x")
    case False
    then show ?thesis using Cons.IH [of "cur @ [x]"] by simp
  next
    case True
    then have x: "\<not> is_alnum (py_lower_char x)" using space_lower [of x] by simp
    have b: "\<not> is_alnum (py_lower_char (CHR '' ''))"
      using space_lower [of "CHR '' ''"] by (simp add: is_space_def)
    have IH: "findall_tokens [] (map py_lower_char (join_space (split_run [] xs)))
                = findall_tokens [] (map py_lower_char xs)"
      using Cons.IH [of "[]"] by simp
    have rhs: "findall_tokens [] (map py_lower_char (cur @ x # xs))
                 = findall_tokens [] (map py_lower_char cur)
                   @ findall_tokens [] (map py_lower_char xs)"
      using findall_separator [OF x, of "[]" "map py_lower_char cur" "map py_lower_char xs"]
      by simp
    show ?thesis
    proof (cases "cur = []")
      case True
      with \<open>is_space x\<close> IH rhs show ?thesis by simp
    next
      case False
      show ?thesis
      proof (cases "split_run [] xs = []")
        case True
        with IH have "findall_tokens [] (map py_lower_char xs) = []" by simp
        with True False \<open>is_space x\<close> rhs show ?thesis by simp
      next
        case ne: False
        have "findall_tokens [] (map py_lower_char (join_space (cur # split_run [] xs)))
                = findall_tokens [] (map py_lower_char cur @ py_lower_char (CHR '' '')
                    # map py_lower_char (join_space (split_run [] xs)))"
          using ne by (simp add: join_space_Cons)
        also have "\<dots> = findall_tokens [] (map py_lower_char cur)
                    @ findall_tokens [] (map py_lower_char (join_space (split_run [] xs)))"
          by (rule findall_separator [OF b])
        finally show ?thesis using False \<open>is_space x\<close> IH rhs by simp
      qed
    qed
  qed
qed

lemma findall_join_words:
  "findall_tokens [] (map py_lower_char (join_space ws))
     = concat (map (\<lambda>w. findall_tokens [] (map py_lower_char w)) ws)"
proof (induction ws)
  case Nil
  show ?case by simp
next
  case (Cons w ws)
  have b: "\<not> is_alnum (py_lower_char (CHR '' ''))"
    using space_lower [of "CHR '' ''"] by (simp add: is_space_def)
  show ?case
  proof (cases "ws = []")
    case True
    then show ?thesis by simp
  next
    case False
    have "findall_tokens [] (map py_lower_char (join_space (w # ws)))
            = findall_tokens [] (map py_lower_char w @ py_lower_char (CHR '' '')
                # map py_lower_char (join_space ws))"
      using False by (simp add: join_space_Cons)
    also have "\<dots> = findall_tokens [] (map py_lower_char w)
                 @ findall_tokens [] (map py_lower_char (join_space ws))"
      by (rule findall_separator [OF b])
    finally show ?thesis using Cons.IH by simp
  qed
qed

lemma tokenize_words: "tokenize q = concat (map tokenize (py_split q))"
proof -
  let ?keep = "\<lambda>t. MIN_TOKEN_LENGTH \<le> length t \<and> length t \<le> MAX_TOKEN_LENGTH"
  have fn: "tokenize = (\<lambda>s. filter ?keep (findall_tokens [] (map py_lower_char s)))"
    by (rule ext) (rule tokenize_eq)
  have "findall_tokens [] (map py_lower_char q)
          = concat (map (\<lambda>w. findall_tokens [] (map py_lower_char w)) (py_split q))"
    using findall_join_split [of "[]" q] findall_join_words [of "py_split q"]
    by (simp add: py_split_def)
  then show ?thesis
    unfolding fn by (simp add: filter_concat comp_def)
qed

lemma tokens_of_same_words:
  assumes "set (py_split q1) = set (py_split q2)"
  shows "set (tokenize q1) = set (tokenize q2)"
  using assms by (simp add: tokenize_words [of q1] tokenize_words [of q2])

lemma process_of_same_tokens:
  assumes "set (tokenize q1) = set (tokenize q2)"
  shows "set (process stops stemmer q1 True) = set (process stops stemmer q2 True)"
  using assms by (simp add: process_def remove_stopwords_def stem_def Let_def)


text \<open>
  Claim C4, as amended. The stemmed tokens of \<open>process_query\<close> are those of \<open>process\<close> on
  the query as given. Two queries whose stemmed, stop word filtered tokens form the same
  set get the same cache key; so do, in particular, two queries with the same set of raw
  tokens, and two queries with the same set of words between white space, whatever the
  white space, the order and the repetitions. For two queries with disjoint non-empty sets
  of stemmed tokens, none of which holds a space, each cache key is the digest of the
  string \<open>" ".join(sorted(set(tokens)))\<close>, and the two strings differ; so the keys differ
  unless the hash collides on them.
\<close>

theorem C4_cache_key:
  "pq_tokens (process_query stops stemmer md5 q1) = process stops stemmer q1 True
   \<and> (set (process stops stemmer q1 True) = set (process stops stemmer q2 True)
      \<longrightarrow> pq_cache_key (process_query stops stemmer md5 q1)
          = pq_cache_key (process_query stops stemmer md5 q2))
   \<and> (set (tokenize q1) = set (tokenize q2)
      \<longrightarrow> pq_cache_key (process_query stops stemmer md5 q1)
          = pq_cache_key (process_query stops stemmer md5 q2))
   \<and> (set (py_split q1) = set (py_split q2)
      \<longrightarrow> pq_cache_key (process_query stops stemmer md5 q1)
          = pq_cache_key (process_query stops stemmer md5 q2))
   \<and> (process stops stemmer q1 True \<noteq> []
      \<and> process stops stemmer q2 True \<noteq> []
      \<and> set (process stops stemmer q1 True) \<inter> set (process stops stemmer q2 True) = {}
      \<and> (\<forall>t \<in> set (process stops stemmer q1 True) \<union> set (process stops stemmer q2 True).
            CHR '' '' \<notin> set t)
    \<longrightarrow> pq_cache_key (process_query stops stemmer md5 q1)
          = md5 (cache_token_str (process stops stemmer q1 True))
        \<and> pq_cache_key (process_query stops stemmer md5 q2)
          = md5 (cache_token_str (process stops stemmer q2 True))
        \<and> cache_token_str (process stops stemmer q1 True)
          \<noteq> cache_token_str (process stops stemmer q2 True))"
proof -
  have same: "pq_cache_key (process_query stops stemmer md5 q1)
          = pq_cache_key (process_query stops stemmer md5 q2)"
    if "set (process stops stemmer q1 True) = set (process stops stemmer q2 True)"
    using that by (simp add: process_query_cache_key cache_token_str_def)
  have toks: "set (process stops stemmer q1 True) = set (process stops stemmer q2 True)"
    if "set (tokenize q1) = set (tokenize q2)"
    using that by (rule process_of_same_tokens)
  have words: "set (tokenize q1) = set (tokenize q2)"
    if "set (py_split q1) = set (py_split q2)"
    using that by (rule tokens_of_same_words)
  have differ: "cache_token_str (process stops stemmer q1 True)
          \<noteq> cache_token_str (process stops stemmer q2 True)"
    if "process stops stemmer q1 True \<noteq> []
      \<and> process stops stemmer q2 True \<noteq> []
      \<and> set (process stops stemmer q1 True) \<inter> set (process stops stemmer q2 True) = {}
      \<and> (\<forall>t \<in> set (process stops stemmer q1 True) \<union> set (process stops stemmer q2 True).
            CHR '' '' \<notin> set t)"
    using that by (intro cache_token_str_differs) simp_all
  show ?thesis
    using same toks words differ
    by (simp only: process_query_tokens process_query_cache_key) blast
qed

theorem C4_cache_key_witness:
  "set (py_split ''foo bar'') = set (py_split '' bar  bar foo'')
   \<and> pq_cache_key (process_query {} (\<lambda>t. t) (\<lambda>s. 0) ''foo bar'')
     = pq_cache_key (process_query {} (\<lambda>t. t) (\<lambda>s. 0) '' bar  bar foo'')
   \<and> pq_tokens (process_query {} (\<lambda>t. t) (\<lambda>s. 0) ''cat'') = [''cat'']
   \<and> process {} (\<lambda>t. t) ''cat'' True = [''cat'']
   \<and> process {} (\<lambda>t. t) ''dog'' True = [''dog'']
   \<and> cache_token_str (process {} (\<lambda>t. t) ''cat'' True)
     \<noteq> cache_token_str (process {} (\<lambda>t. t) ''dog'' True)"
proof -
  have a: "py_split ''foo bar'' = [''foo'', ''bar'']"
    by code_simp
  have b: "py_split '' bar  bar foo'' = [''bar'', ''bar'', ''foo'']"
    by code_simp
  have c: "process {} (\<lambda>t. t) ''cat'' True = [''cat'']"
    by code_simp
  have d: "process {} (\<lambda>t. t) ''dog'' True = [''dog'']"
    by code_simp
  have same: "set (py_split ''foo bar'') = set (py_split '' bar  bar foo'')"
    unfolding a b by auto
  from C4_cache_key [of "{}" "\<lambda>t. t" "\<lambda>s. 0" "''foo bar''" "'' bar  bar foo''"] same
  have k: "pq_cache_key (process_query {} (\<lambda>t. t) (\<lambda>s. 0) ''foo bar'')
     = pq_cache_key (process_query {} (\<lambda>t. t) (\<lambda>s. 0) '' bar  bar foo'')"
    by blast
  from C4_cache_key [of "{}" "\<lambda>t. t" "\<lambda>s. 0" "''cat''" "''dog''"]
  have t: "pq_tokens (process_query {} (\<lambda>t. t) (\<lambda>s. 0) ''cat'') = [''cat'']"
    and n: "cache_token_str (process {} (\<lambda>t. t) ''cat'' True)
     \<noteq> cache_token_str (process {} (\<lambda>t. t) ''dog'' True)"
    unfolding c d by simp_all
  from same k t c d n show ?thesis by blast
qed

text \<open>
  That the keys themselves always differ cannot hold for a digest of 128 bits. A query of
  40 digits is one token, which no stop word list of words removes and the Porter stemmer
  leaves alone; here the stop word set is empty and the stemmer the identity. There are
  \<open>10^40\<close> such queries and \<open>2^128\<close> digests, so whatever function computes the digest, two
  of these queries, with disjoint token sets, get the same cache key.
\<close>

lemma digit_chars:
  assumes "c \<in> set ''0123456789''"
  shows "\<not> is_space c" and "is_alnum c" and "py_lower_char c = c"
  using assms by (auto simp: is_space_def is_alnum_def py_lower_char_def)

lemma findall_tokens_all_alnum:
  "\<forall>c \<in> set s. is_alnum c \<Longrightarrow> cur @ s \<noteq> [] \<Longrightarrow> findall_tokens cur s = [cur @ s]"
  by (induction s arbitrary: cur) auto

lemma collapse_run_no_space:
  "\<forall>c \<in> set s. \<not> is_space c \<Longrightarrow> collapse_run b s = s"
  by (induction s arbitrary: b) auto

lemma py_strip_no_space:
  assumes "\<forall>c \<in> set s. \<not> is_space c"
  shows "py_strip s = s"
proof -
  have dw: "dropWhile is_space xs = xs" if "\<forall>c \<in> set xs. \<not> is_space c" for xs
    using that by (cases xs) simp_all
  have "dropWhile is_space s = s" using assms by (rule dw)
  moreover have "dropWhile is_space (rev s) = rev s" using assms by (intro dw) simp
  ultimately show ?thesis by (simp add: py_strip_def)
qed

lemma digit_query:
  assumes "set q \<subseteq> set ''0123456789''" and "length q = 40"
  shows "pq_tokens (process_query {} (\<lambda>t. t) md5 q) = [q]"
    and "pq_cache_key (process_query {} (\<lambda>t. t) md5 q) = md5 q"
proof -
  have dc: "c \<in> set ''0123456789''" if "c \<in> set q" for c
    using that assms(1) by (rule subsetD [rotated])
  have ns: "\<forall>c \<in> set q. \<not> is_space c"
    using dc digit_chars(1) by blast
  have an: "\<forall>c \<in> set q. is_alnum c"
    using dc digit_chars(2) by blast
  have lo: "py_lower q = q"
    unfolding py_lower_def by (rule map_idI) (rule digit_chars(3), rule dc)
  have ne: "q \<noteq> []" using assms(2) by auto
  have cl: "collapse_spaces (py_strip q) = q"
    using ns by (simp add: py_strip_no_space collapse_spaces_def collapse_run_no_space)
  have tk: "tokenize q = [q]"
    using ne an assms(2)
    by (simp add: tokenize_def lo findall_tokens_all_alnum MIN_TOKEN_LENGTH_def
        MAX_TOKEN_LENGTH_def)
  have pr: "process {} (\<lambda>t. t) q True = [q]"
    by (simp add: process_def tk remove_stopwords_def stem_def)
  show "pq_tokens (process_query {} (\<lambda>t. t) md5 q) = [q]"
    by (simp add: process_query_def cl pr Let_def)
  show "pq_cache_key (process_query {} (\<lambda>t. t) md5 q) = md5 q"
    by (simp add: process_query_def cl pr cache_token_str_def Let_def)
qed

theorem C4_hash_collision_counterexample:
  "\<forall>md5 :: string \<Rightarrow> 128 word. \<exists>q1 q2.
      pq_tokens (process_query {} (\<lambda>t. t) md5 q1) \<noteq> []
    \<and> pq_tokens (process_query {} (\<lambda>t. t) md5 q2) \<noteq> []
    \<and> set (pq_tokens (process_query {} (\<lambda>t. t) md5 q1))
        \<inter> set (pq_tokens (process_query {} (\<lambda>t. t) md5 q2)) = {}
    \<and> pq_cache_key (process_query {} (\<lambda>t. t) md5 q1)
        = pq_cache_key (process_query {} (\<lambda>t. t) md5 q2)"
proof
  fix md5 :: "string \<Rightarrow> 128 word"
  let ?A = "{q. set q \<subseteq> set ''0123456789'' \<and> length q = 40}"
  have fin: "finite ?A" by (rule finite_lists_length_eq) simp
  have "card (set ''0123456789'') = 10"
    by (subst distinct_card) simp_all
  then have cA: "card ?A = 10 ^ 40"
    by (simp add: card_lists_length_eq del: set_simps)
  have "card (md5 ` ?A) \<le> card (UNIV :: 128 word set)"
    by (rule card_mono) simp_all
  also have "\<dots> = 2 ^ 128" by (simp add: card_word)
  also have "\<dots> < (10::nat) ^ 40" by simp
  finally have "card (md5 ` ?A) < card ?A" by (simp only: cA)
  then have "\<not> inj_on md5 ?A" by (rule pigeonhole)
  then obtain q1 q2 where q: "q1 \<in> ?A" "q2 \<in> ?A" "q1 \<noteq> q2" "md5 q1 = md5 q2"
    by (auto simp: inj_on_def)
  from q(1) have d1: "set q1 \<subseteq> set ''0123456789''" "length q1 = 40" by simp_all
  from q(2) have d2: "set q2 \<subseteq> set ''0123456789''" "length q2 = 40" by simp_all
  show "\<exists>q1 q2.
      pq_tokens (process_query {} (\<lambda>t. t) md5 q1) \<noteq> []
    \<and> pq_tokens (process_query {} (\<lambda>t. t) md5 q2) \<noteq> []
    \<and> set (pq_tokens (process_query {} (\<lambda>t. t) md5 q1))
        \<inter> set (pq_tokens (process_query {} (\<lambda>t. t) md5 q2)) = {}
    \<and> pq_cache_key (process_query {} (\<lambda>t. t) md5 q1)
        = pq_cache_key (process_query {} (\<lambda>t. t) md5 q2)"
    using q(3,4)
    by (intro exI [of _ q1] exI [of _ q2])
       (simp add: digit_query [OF d1] digit_query [OF d2])
qed

section \<open>Chunking: offsets, sizes, coverage and overlap\<close>

text \<open>Joining words with spaces and splitting again gives the words back.\<close>

lemma is_space_blank: "is_space (CHR '' '')"
  by (simp add: is_space_def)

lemma split_run_word:
  "\<forall>c \<in> set w. \<not> is_space c \<Longrightarrow> split_run cur (w @ rest) = split_run (cur @ w) rest"
  by (induction w arbitrary: cur) simp_all

lemma split_join_space:
  "\<forall>w \<in> set ws. w \<noteq> [] \<and> (\<forall>c \<in> set w. \<not> is_space c) \<Longrightarrow>
     split_run [] (join_space ws) = ws"
proof (induction ws)
  case Nil
  show ?case by simp
next
  case (Cons w ws)
  then have w: "w \<noteq> []" "\<forall>c \<in> set w. \<not> is_space c" by simp_all
  show ?case
  proof (cases "ws = []")
    case True
    with w show ?thesis using split_run_word [of w "[]" "[]"] by simp
  next
    case False
    have "split_run [] (join_space (w # ws)) = split_run w (CHR '' '' # join_space ws)"
      using split_run_word [OF w(2), of "[]" "CHR '' '' # join_space ws"] False
      by (simp add: join_space_Cons)
    also have "\<dots> = w # split_run [] (join_space ws)"
      using w(1) by (simp add: is_space_blank)
    also have "\<dots> = w # ws" using Cons by simp
    finally show ?thesis .
  qed
qed

lemma split_run_words:
  "\<forall>c \<in> set cur. \<not> is_space c \<Longrightarrow> w \<in> set (split_run cur s) \<Longrightarrow>
     w \<noteq> [] \<and> (\<forall>c \<in> set w. \<not> is_space c)"
proof (induction s arbitrary: cur)
  case Nil
  then show ?case by (auto split: if_splits)
next
  case (Cons c s)
  show ?case
  proof (cases "is_space c")
    case True
    with Cons.prems(2) have "w \<in> set (if cur = [] then [] else [cur]) \<or> w \<in> set (split_run [] s)"
      by simp
    then show ?thesis
    proof
      assume "w \<in> set (if cur = [] then [] else [cur])"
      with Cons.prems(1) show ?thesis by (auto split: if_splits)
    next
      assume "w \<in> set (split_run [] s)"
      with Cons.IH [of "[]"] show ?thesis by simp
    qed
  next
    case False
    with Cons.prems(2) have "w \<in> set (split_run (cur @ [c]) s)" by simp
    moreover have "\<forall>x \<in> set (cur @ [c]). \<not> is_space x" using Cons.prems(1) False by simp
    ultimately show ?thesis using Cons.IH [of "cur @ [c]"] by blast
  qed
qed

lemma py_split_join_sublist:
  assumes "set ws \<subseteq> set (py_split s)"
  shows "py_split (join_space ws) = ws"
  unfolding py_split_def
proof (rule split_join_space, rule ballI)
  fix w assume "w \<in> set ws"
  with assms have "w \<in> set (split_run [] s)" by (auto simp: py_split_def)
  then show "w \<noteq> [] \<and> (\<forall>c \<in> set w. \<not> is_space c)"
    by (intro split_run_words [of "[]" w s]) simp_all
qed

lemma py_slice_window:
  assumes "0 \<le> a" and "a \<le> int (length xs)" and "0 \<le> c"
  shows "py_slice xs a (min (a + c) (int (length xs))) = take (nat c) (drop (nat a) xs)"
proof -
  have s: "slice_bound (length xs) a = nat a"
    using assms by (simp add: slice_bound_def min_def; linarith)
  have e: "slice_bound (length xs) (min (a + c) (int (length xs)))
             = min (nat a + nat c) (length xs)"
    using assms by (simp add: slice_bound_def min_def; linarith)
  show ?thesis
    unfolding py_slice_def Let_def s e
    using assms by (cases "nat a + nat c \<le> length xs") (simp_all add: min_def)
qed


lemma chunk_count_iff:
  assumes "0 < (st::nat)"
  shows "k < (n + st - 1) div st \<longleftrightarrow> k * st < n"
proof -
  have "k < (n + st - 1) div st \<longleftrightarrow> Suc k \<le> (n + st - 1) div st" by auto
  also have "\<dots> \<longleftrightarrow> Suc k * st \<le> n + st - 1"
    using assms by (simp only: less_eq_div_iff_mult_less_eq)
  also have "\<dots> \<longleftrightarrow> k * st < n" using assms by auto
  finally show ?thesis .
qed

lemma chunk_text_long:
  assumes "0 \<le> co" and "co < cs" and "cs < int (length (py_split text))"
  shows "chunk_text text cs co =
           Some (map (\<lambda>k. join_space (take (nat cs) (drop (k * nat (cs - co)) (py_split text))))
                   [0..<(length (py_split text) + nat (cs - co) - 1) div nat (cs - co)])"
proof -
  let ?words = "py_split text" and ?st = "nat (cs - co)"
  let ?n = "length ?words"
  have st: "0 < ?st" "int ?st = cs - co" using assms(2) by simp_all
  have step: "0 < cs - co" using assms(2) by simp
  have ne: "text \<noteq> []"
  proof
    assume "text = []"
    then have "?n = 0" by (simp add: py_split_def)
    with assms show False by simp
  qed
  have m: "nat ((int ?n - 0 + (cs - co) - 1) div (cs - co)) = (?n + ?st - 1) div ?st"
  proof -
    have a: "int ?n - 0 + (cs - co) - 1 = int (?n + ?st - 1)" using st(1) by linarith
    have "(int ?n - 0 + (cs - co) - 1) div (cs - co) = int ((?n + ?st - 1) div ?st)"
      by (metis a st(2) zdiv_int)
    then show ?thesis by (metis nat_int)
  qed
  have "chunk_text text cs co = chunk_loop ?words cs co 0 []"
    using assms(3) ne by (simp add: chunk_text_def Let_def)
  also have "\<dots> = Some (map (\<lambda>k. join_space (py_slice ?words (0 + int k * (cs - co))
                     (min (0 + int k * (cs - co) + cs) (int ?n))))
                   [0..<(?n + ?st - 1) div ?st])"
    by (simp only: chunk_loop_closed [OF step] m append_Nil)
  also have "map (\<lambda>k. join_space (py_slice ?words (0 + int k * (cs - co))
                     (min (0 + int k * (cs - co) + cs) (int ?n))))
                   [0..<(?n + ?st - 1) div ?st]
           = map (\<lambda>k. join_space (take (nat cs) (drop (k * ?st) ?words)))
                   [0..<(?n + ?st - 1) div ?st]"
  proof (rule map_cong [OF refl])
    fix k assume "k \<in> set [0..<(?n + ?st - 1) div ?st]"
    then have "k * ?st < ?n" using chunk_count_iff [OF st(1)] by simp
    then have le: "int k * (cs - co) \<le> int ?n"
      by (metis st(2) of_nat_mult of_nat_less_iff less_imp_le)
    have nn: "0 \<le> int k * (cs - co)" using step by simp
    have c0: "0 \<le> cs" using assms(1,2) by simp
    have "nat (int k * (cs - co)) = k * ?st"
      by (metis st(2) of_nat_mult nat_int)
    with py_slice_window [OF nn le c0]
    show "join_space (py_slice ?words (0 + int k * (cs - co))
                     (min (0 + int k * (cs - co) + cs) (int ?n)))
          = join_space (take (nat cs) (drop (k * ?st) ?words))"
      by simp
  qed
  finally show ?thesis .
qed


text \<open>
  Claim C5, as amended. Let \<open>0 \<le> chunk_overlap < chunk_size\<close> and let the text have more
  than \<open>chunk_size\<close> words. Then \<open>chunk_text\<close> returns chunks, one for each offset
  \<open>k * (chunk_size - chunk_overlap)\<close> below the number of words; chunk \<open>k\<close> is the words
  from that offset on, at most \<open>chunk_size\<close> of them, joined by spaces; every chunk has at
  most \<open>chunk_size\<close> words; every word of the text, at its position, is in a chunk; and when
  two chunks in a row are full, the last \<open>chunk_overlap\<close> words of the first are the first
  \<open>chunk_overlap\<close> words of the second. A text that is not empty and has at most
  \<open>chunk_size\<close> words comes back as the single chunk, and the empty text gives no chunk
  at all.
\<close>

theorem C5_chunk_text:
  fixes chunk_size chunk_overlap :: int
  defines "step \<equiv> nat (chunk_size - chunk_overlap)"
  shows
   "(0 \<le> chunk_overlap \<and> chunk_overlap < chunk_size
       \<and> chunk_size < int (length (py_split text)) \<longrightarrow>
      (\<exists>chunks. chunk_text text chunk_size chunk_overlap = Some chunks
        \<and> (\<forall>k. k < length chunks \<longleftrightarrow> k * step < length (py_split text))
        \<and> (\<forall>k < length chunks.
              chunks ! k = join_space (take (nat chunk_size) (drop (k * step) (py_split text)))
              \<and> py_split (chunks ! k) = take (nat chunk_size) (drop (k * step) (py_split text)))
        \<and> (\<forall>c \<in> set chunks. int (length (py_split c)) \<le> chunk_size)
        \<and> (\<forall>i < length (py_split text). \<exists>k < length chunks.
              k * step \<le> i \<and> i - k * step < length (py_split (chunks ! k))
              \<and> py_split (chunks ! k) ! (i - k * step) = py_split text ! i)
        \<and> (\<forall>k. Suc k < length chunks
                \<and> int (length (py_split (chunks ! k))) = chunk_size
                \<and> int (length (py_split (chunks ! Suc k))) = chunk_size \<longrightarrow>
              int (length (take (nat chunk_overlap) (py_split (chunks ! Suc k)))) = chunk_overlap
              \<and> drop step (py_split (chunks ! k))
                  = take (nat chunk_overlap) (py_split (chunks ! Suc k)))))
    \<and> (text \<noteq> [] \<and> int (length (py_split text)) \<le> chunk_size \<longrightarrow>
          chunk_text text chunk_size chunk_overlap = Some [text])
    \<and> chunk_text [] chunk_size chunk_overlap = Some []"
proof (intro conjI impI)
  show "chunk_text [] chunk_size chunk_overlap = Some []"
    by (simp add: chunk_text_def)
next
  assume "text \<noteq> [] \<and> int (length (py_split text)) \<le> chunk_size"
  then show "chunk_text text chunk_size chunk_overlap = Some [text]"
    by (simp add: chunk_text_def Let_def)
next
  assume a: "0 \<le> chunk_overlap \<and> chunk_overlap < chunk_size
       \<and> chunk_size < int (length (py_split text))"
  let ?words = "py_split text"
  let ?n = "length ?words"
  let ?c = "nat chunk_size" and ?o = "nat chunk_overlap"
  let ?w = "\<lambda>k. take ?c (drop (k * step) ?words)"
  let ?m = "(?n + step - 1) div step"
  let ?chunks = "map (\<lambda>k. join_space (?w k)) [0..<?m]"
  have st: "0 < step" and cso: "?c = step + ?o" and c: "int ?c = chunk_size"
    and o: "int ?o = chunk_overlap"
    using a unfolding step_def by linarith+
  have run: "chunk_text text chunk_size chunk_overlap = Some ?chunks"
    using a unfolding step_def by (intro chunk_text_long) simp_all
  have len: "length ?chunks = ?m" by simp
  have count: "k < length ?chunks \<longleftrightarrow> k * step < ?n" for k
    unfolding len by (rule chunk_count_iff [OF st])
  have nth: "?chunks ! k = join_space (?w k)" if "k < length ?chunks" for k
    using that by simp
  have sub: "set (?w k) \<subseteq> set ?words" for k
    by (meson set_take_subset set_drop_subset subset_trans)
  have split: "py_split (?chunks ! k) = ?w k" if "k < length ?chunks" for k
    unfolding nth [OF that] using sub by (rule py_split_join_sublist)
  have size: "int (length (py_split ch)) \<le> chunk_size" if "ch \<in> set ?chunks" for ch
  proof -
    from that obtain k where k: "k < length ?chunks" "ch = ?chunks ! k"
      by (metis in_set_conv_nth)
    have "length (?w k) \<le> ?c" by simp
    then show ?thesis unfolding k(2) split [OF k(1)] using c by linarith
  qed
  have cover: "\<exists>k < length ?chunks. k * step \<le> i \<and> i - k * step < length (py_split (?chunks ! k))
              \<and> py_split (?chunks ! k) ! (i - k * step) = ?words ! i"
    if i: "i < ?n" for i
  proof -
    let ?k = "i div step"
    have le: "?k * step \<le> i" by simp
    from le i have "?k * step < ?n" by (rule le_less_trans)
    then have k: "?k < length ?chunks" by (simp only: count)
    have off: "i - ?k * step = i mod step" by (simp add: minus_div_mult_eq_mod)
    have "i mod step < step" using st by simp
    then have l1: "i - ?k * step < ?c" unfolding off cso by simp
    have l2: "i - ?k * step < ?n - ?k * step" using i le by (rule diff_less_mono)
    have inlen: "i - ?k * step < length (?w ?k)" using l1 l2 by simp
    have readd: "?k * step + (i - ?k * step) = i" using le by (rule le_add_diff_inverse)
    have "?w ?k ! (i - ?k * step) = ?words ! (?k * step + (i - ?k * step))"
      using l1 l2 by simp
    then have val: "?w ?k ! (i - ?k * step) = ?words ! i" by (simp only: readd)
    show ?thesis
    proof (intro exI [of _ ?k] conjI)
      show "?k < length ?chunks" by (rule k)
      show "?k * step \<le> i" by (rule le)
      show "i - ?k * step < length (py_split (?chunks ! ?k))"
        unfolding split [OF k] by (rule inlen)
      show "py_split (?chunks ! ?k) ! (i - ?k * step) = ?words ! i"
        unfolding split [OF k] by (rule val)
    qed
  qed
  have overlap: "int (length (take ?o (py_split (?chunks ! Suc k)))) = chunk_overlap
              \<and> drop step (py_split (?chunks ! k)) = take ?o (py_split (?chunks ! Suc k))"
    if k: "Suc k < length ?chunks"
      and full: "int (length (py_split (?chunks ! Suc k))) = chunk_size" for k
  proof -
    have k0: "k < length ?chunks" using k by simp
    have "length (?w (Suc k)) = ?c" using full c unfolding split [OF k] by linarith
    then have "length (take ?o (?w (Suc k))) = ?o" using cso by simp
    then have l: "int (length (take ?o (?w (Suc k)))) = chunk_overlap" using o by simp
    have "drop step (?w k) = take (?c - step) (drop (step + k * step) ?words)"
      by (simp add: drop_take)
    also have "\<dots> = take ?o (drop (Suc k * step) ?words)" using cso by simp
    also have "\<dots> = take ?o (?w (Suc k))" using cso by (simp add: min_def)
    finally have "drop step (?w k) = take ?o (?w (Suc k))" .
    with l show ?thesis unfolding split [OF k] split [OF k0] by simp
  qed
  show "\<exists>chunks. chunk_text text chunk_size chunk_overlap = Some chunks
        \<and> (\<forall>k. k < length chunks \<longleftrightarrow> k * step < length (py_split text))
        \<and> (\<forall>k < length chunks.
              chunks ! k = join_space (take (nat chunk_size) (drop (k * step) (py_split text)))
              \<and> py_split (chunks ! k) = take (nat chunk_size) (drop (k * step) (py_split text)))
        \<and> (\<forall>c \<in> set chunks. int (length (py_split c)) \<le> chunk_size)
        \<and> (\<forall>i < length (py_split text). \<exists>k < length chunks.
              k * step \<le> i \<and> i - k * step < length (py_split (chunks ! k))
              \<and> py_split (chunks ! k) ! (i - k * step) = py_split text ! i)
        \<and> (\<forall>k. Suc k < length chunks
                \<and> int (length (py_split (chunks ! k))) = chunk_size
                \<and> int (length (py_split (chunks ! Suc k))) = chunk_size \<longrightarrow>
              int (length (take (nat chunk_overlap) (py_split (chunks ! Suc k)))) = chunk_overlap
              \<and> drop step (py_split (chunks ! k))
                  = take (nat chunk_overlap) (py_split (chunks ! Suc k)))"
  proof (intro exI [of _ ?chunks] conjI allI impI ballI)
    show "chunk_text text chunk_size chunk_overlap = Some ?chunks" by (rule run)
  next
    fix k show "k < length ?chunks \<longleftrightarrow> k * step < ?n" by (rule count)
  next
    fix k assume "k < length ?chunks"
    then show "?chunks ! k = join_space (?w k)" by (rule nth)
  next
    fix k assume "k < length ?chunks"
    then show "py_split (?chunks ! k) = ?w k" by (rule split)
  next
    fix ch assume "ch \<in> set ?chunks"
    then show "int (length (py_split ch)) \<le> chunk_size" by (rule size)
  next
    fix i assume "i < ?n"
    then show "\<exists>k < length ?chunks. k * step \<le> i \<and> i - k * step < length (py_split (?chunks ! k))
              \<and> py_split (?chunks ! k) ! (i - k * step) = ?words ! i"
      by (rule cover)
  next
    fix k assume h: "Suc k < length ?chunks
                \<and> int (length (py_split (?chunks ! k))) = chunk_size
                \<and> int (length (py_split (?chunks ! Suc k))) = chunk_size"
    then show "int (length (take ?o (py_split (?chunks ! Suc k)))) = chunk_overlap"
      using overlap [of k] by blast
    from h show "drop step (py_split (?chunks ! k)) = take ?o (py_split (?chunks ! Suc k))"
      using overlap [of k] by blast
  qed
qed



theorem C5_chunk_text_witness:
  "(0::int) \<le> 1 \<and> (1::int) < 3 \<and> 3 < int (length (py_split ''a b c d e''))
   \<and> (\<exists>chunks. chunk_text ''a b c d e'' 3 1 = Some chunks
         \<and> 1 < length chunks
         \<and> chunks ! 1 = ''c d e''
         \<and> py_split (chunks ! 1) = [''c'', ''d'', ''e''])
   \<and> ''hello world'' \<noteq> [] \<and> int (length (py_split ''hello world'')) \<le> 512
   \<and> chunk_text ''hello world'' 512 50 = Some [''hello world'']"
proof -
  have w: "py_split ''a b c d e'' = [''a'', ''b'', ''c'', ''d'', ''e'']"
    by (simp add: py_split_def is_space_def)
  have h: "py_split ''hello world'' = [''hello'', ''world'']"
    by (simp add: py_split_def is_space_def)
  have hyp: "(0::int) \<le> 1 \<and> (1::int) < 3 \<and> 3 < int (length (py_split ''a b c d e''))"
    by (simp add: w)
  from conjunct1 [OF C5_chunk_text [of 1 3 "''a b c d e''"], THEN mp, OF hyp]
  obtain chunks where run: "chunk_text ''a b c d e'' 3 1 = Some chunks"
    and count0: "\<forall>k. k < length chunks \<longleftrightarrow> k * nat (3 - 1) < length (py_split ''a b c d e'')"
    and nth0: "\<forall>k < length chunks.
              chunks ! k = join_space (take (nat 3) (drop (k * nat (3 - 1)) (py_split ''a b c d e'')))
              \<and> py_split (chunks ! k)
                  = take (nat 3) (drop (k * nat (3 - 1)) (py_split ''a b c d e''))"
    by blast
  have one: "1 < length chunks" using count0 by (simp add: w)
  with nth0 have "chunks ! 1 = ''c d e''" "py_split (chunks ! 1) = [''c'', ''d'', ''e'']"
    by (simp_all add: w py_split_def is_space_def)
  with run one have "\<exists>chunks. chunk_text ''a b c d e'' 3 1 = Some chunks
         \<and> 1 < length chunks
         \<and> chunks ! 1 = ''c d e''
         \<and> py_split (chunks ! 1) = [''c'', ''d'', ''e'']"
    by blast
  moreover have "chunk_text ''hello world'' 512 50 = Some [''hello world'']"
    using C5_chunk_text [of 50 512 "''hello world''"] by (simp add: h)
  ultimately show ?thesis by (simp add: w h)
qed

text \<open>
  The claim as stated fails at the empty text, which has no more than \<open>chunk_size\<close> words
  and gives no chunk. Outside \<open>0 \<le> chunk_overlap < chunk_size\<close> the rest fails too: with
  \<open>chunk_size = 2\<close> and \<open>chunk_overlap = -1\<close> the third word of \<open>a b c\<close> is in no chunk,
  and with \<open>chunk_overlap = chunk_size = 2\<close> the call never returns.
\<close>

theorem C5_empty_text_counterexample:
  "int (length (py_split [])) \<le> 512
   \<and> chunk_text [] 512 50 = Some []
   \<and> chunk_text [] 512 50 \<noteq> Some [[]]
   \<and> py_split ''a b c'' = [''a'', ''b'', ''c'']
   \<and> chunk_text ''a b c'' 2 (- 1) = Some [''a b'']
   \<and> chunk_text ''a b c'' 2 2 = None"
proof -
  have w: "py_split ''a b c'' = [''a'', ''b'', ''c'']"
    by (simp add: py_split_def is_space_def)
  have gap: "chunk_text ''a b c'' 2 (- 1) = Some [''a b'']"
    by (simp add: chunk_text_def w chunk_loop.simps py_slice_def slice_bound_def)
  have "chunk_loop [''a'', ''b'', ''c''] 2 2 0 [] = None"
    by (rule chunk_loop_diverges) simp_all
  then have div: "chunk_text ''a b c'' 2 2 = None"
    by (simp add: chunk_text_def w)
  show ?thesis
    using w gap div by (simp add: chunk_text_def py_split_def)
qed

end
